theory Spec2Isabelle
  imports Complex_Main "HOL-Library.Word"
begin

section \<open>Constants of the tiny transformer (App.jsx, lines 34-38)\<close>

definition d_model :: nat where "d_model = 32"
definition n_layers :: nat where "n_layers = 2"
definition vocab_size :: nat where "vocab_size = 100"
definition EOS :: int where "EOS = 99"
definition maxTokens :: nat where "maxTokens = 100"

section \<open>Tokenizer (App.jsx, lines 72-77)\<close>

text \<open>
  A JavaScript string is a sequence of UTF-16 code units. \<open>Array.from(str)\<close> walks the
  string by code points: a high surrogate followed by a low surrogate is one element
  (of two units), every other unit is an element of its own. \<open>c.charCodeAt(0)\<close> is the
  first unit of the element.
\<close>

type_synonym jsstring = "16 word list"

definition is_high_surrogate :: "16 word \<Rightarrow> bool" where
  "is_high_surrogate u = (0xD800 \<le> u \<and> u \<le> 0xDBFF)"

definition is_low_surrogate :: "16 word \<Rightarrow> bool" where
  "is_low_surrogate u = (0xDC00 \<le> u \<and> u \<le> 0xDFFF)"

fun array_from :: "jsstring \<Rightarrow> jsstring list" where
  "array_from [] = []"
| "array_from [u] = [[u]]"
| "array_from (u # v # rest) =
     (if is_high_surrogate u \<and> is_low_surrogate v
      then [u, v] # array_from rest
      else [u] # array_from (v # rest))"

definition charCodeAt0 :: "jsstring \<Rightarrow> int" where
  "charCodeAt0 c = uint (hd c)"

definition encode :: "jsstring \<Rightarrow> int list" where
  "encode str = map (\<lambda>c. charCodeAt0 c mod (int vocab_size - 1)) (array_from str)"

text \<open>
  \<open>String.fromCharCode(n)\<close> is the single code unit \<open>n mod 2^16\<close>; \<open>join("")\<close>
  concatenates the pieces.
\<close>

definition fromCharCode :: "int \<Rightarrow> jsstring" where
  "fromCharCode n = [word_of_int n]"

definition decode :: "int list \<Rightarrow> jsstring" where
  "decode arr = concat (map (\<lambda>x. if x = EOS then [] else fromCharCode (x + 65)) arr)"

section \<open>Numbers: IEEE-754 doubles\<close>

text \<open>
  The entries of the matrices and vectors are JavaScript numbers, that is, IEEE-754
  binary64 values: the finite values (multiples of \<open>2^-1074\<close> with a significand of
  53 bits, below \<open>2^1024\<close>), the two zeros, the two infinities and \<open>NaN\<close>. An operation
  computes its exact real result and rounds it to the nearest double, a tie going to the
  even significand; a rounded value of magnitude \<open>2^1024\<close> or more is an infinity.
\<close>

subsection \<open>Rounding a real number\<close>

text \<open>
  \<open>expo x\<close> is the exponent of the binade of \<open>x\<close> (at least that of the subnormal
  numbers), \<open>ulp x\<close> the distance between neighbouring doubles there, \<open>rne\<close> rounds a
  real to the nearest integer with ties to even.
\<close>

definition expo :: "real \<Rightarrow> int" where
  "expo x = (if x = 0 then - 1022 else max (- 1022) \<lfloor>log 2 \<bar>x\<bar>\<rfloor>)"

definition ulp :: "real \<Rightarrow> real" where
  "ulp x = 2 powi (expo x - 52)"

definition rne :: "real \<Rightarrow> int" where
  "rne q = (let f = \<lfloor>q\<rfloor> in
      if q - of_int f < 1 / 2 then f
      else if 1 / 2 < q - of_int f then f + 1
      else if even f then f else f + 1)"

definition round_real :: "real \<Rightarrow> real" where
  "round_real x = of_int (rne (x / ulp x)) * ulp x"

subsection \<open>The values and the operations\<close>

text \<open>\<open>Num 0\<close> is the positive zero, \<open>NegZero\<close> the negative one.\<close>

datatype jsnum = Num real | NegZero | PosInf | NegInf | NaN

fun num_value :: "jsnum \<Rightarrow> real" where
  "num_value (Num r) = r"
| "num_value _ = 0"

fun is_finite :: "jsnum \<Rightarrow> bool" where
  "is_finite (Num r) = True"
| "is_finite NegZero = True"
| "is_finite _ = False"

text \<open>The sign bit.\<close>

fun negative :: "jsnum \<Rightarrow> bool" where
  "negative (Num r) = (r < 0)"
| "negative NegZero = True"
| "negative NegInf = True"
| "negative _ = False"

fun is_zero :: "jsnum \<Rightarrow> bool" where
  "is_zero (Num r) = (r = 0)"
| "is_zero NegZero = True"
| "is_zero _ = False"

text \<open>
  The double for an exact result \<open>x\<close>; \<open>neg\<close> is the sign that a zero result takes.
\<close>

definition fl :: "bool \<Rightarrow> real \<Rightarrow> jsnum" where
  "fl neg x =
     (let y = round_real x in
      if 2 ^ 1024 \<le> \<bar>y\<bar> then (if 0 < x then PosInf else NegInf)
      else if y = 0 then (if neg then NegZero else Num 0)
      else Num y)"

definition signed_inf :: "bool \<Rightarrow> jsnum" where
  "signed_inf neg = (if neg then NegInf else PosInf)"

definition signed_zero :: "bool \<Rightarrow> jsnum" where
  "signed_zero neg = (if neg then NegZero else Num 0)"

fun negate :: "jsnum \<Rightarrow> jsnum" where
  "negate (Num r) = (if r = 0 then NegZero else Num (- r))"
| "negate NegZero = Num 0"
| "negate PosInf = NegInf"
| "negate NegInf = PosInf"
| "negate NaN = NaN"

instantiation jsnum :: "{zero, plus, minus, times}"
begin

definition zero_jsnum :: jsnum where
  "zero_jsnum = Num 0"

text \<open>
  A sum that is exactly zero is the negative zero only when both terms are negative
  zeros.
\<close>

definition plus_jsnum :: "jsnum \<Rightarrow> jsnum \<Rightarrow> jsnum" where
  "plus_jsnum a b =
     (if a = NaN \<or> b = NaN then NaN
      else if a = PosInf then (if b = NegInf then NaN else PosInf)
      else if a = NegInf then (if b = PosInf then NaN else NegInf)
      else if b = PosInf then PosInf
      else if b = NegInf then NegInf
      else if num_value a + num_value b = 0
        then signed_zero (negative a \<and> negative b)
      else fl (num_value a + num_value b < 0) (num_value a + num_value b))"

definition minus_jsnum :: "jsnum \<Rightarrow> jsnum \<Rightarrow> jsnum" where
  "minus_jsnum a b = a + negate b"

text \<open>The sign of a product is the exclusive or of the signs; zero times infinity is \<open>NaN\<close>.\<close>

definition times_jsnum :: "jsnum \<Rightarrow> jsnum \<Rightarrow> jsnum" where
  "times_jsnum a b =
     (if a = NaN \<or> b = NaN then NaN
      else if \<not> is_finite a then (if is_zero b then NaN else signed_inf (negative a \<noteq> negative b))
      else if \<not> is_finite b then (if is_zero a then NaN else signed_inf (negative a \<noteq> negative b))
      else fl (negative a \<noteq> negative b) (num_value a * num_value b))"

instance ..

end

text \<open>\<open>x / sum\<close>\<close>

definition divide_num :: "jsnum \<Rightarrow> jsnum \<Rightarrow> jsnum" where
  "divide_num a b =
     (if a = NaN \<or> b = NaN then NaN
      else if \<not> is_finite a then (if is_finite b then signed_inf (negative a \<noteq> negative b) else NaN)
      else if \<not> is_finite b then signed_zero (negative a \<noteq> negative b)
      else if is_zero b then (if is_zero a then NaN else signed_inf (negative a \<noteq> negative b))
      else fl (negative a \<noteq> negative b) (num_value a / num_value b))"

text \<open>
  \<open>Math.exp\<close>. ECMAScript fixes the results at \<open>NaN\<close>, the zeros (1) and the infinities
  and leaves the other results to the implementation as approximations; here they are
  the correctly rounded exponential, which underflows to \<open>+0\<close> and overflows to
  \<open>+Infinity\<close>.
\<close>

fun math_exp :: "jsnum \<Rightarrow> jsnum" where
  "math_exp (Num r) = (if r = 0 then Num 1 else fl False (exp r))"
| "math_exp NegZero = Num 1"
| "math_exp PosInf = PosInf"
| "math_exp NegInf = Num 0"
| "math_exp NaN = NaN"

text \<open>The comparison \<open>a < b\<close> of two numbers other than \<open>NaN\<close>; the zeros are equal.\<close>

fun rank :: "jsnum \<Rightarrow> int" where
  "rank NegInf = - 1"
| "rank PosInf = 1"
| "rank _ = 0"

definition less_num :: "jsnum \<Rightarrow> jsnum \<Rightarrow> bool" where
  "less_num a b = (rank a < rank b \<or> (rank a = 0 \<and> rank b = 0 \<and> num_value a < num_value b))"

text \<open>
  One round of the loop of \<open>Math.max\<close>, on the highest value so far and the next
  argument: \<open>NaN\<close> as soon as an argument is, and \<open>+0\<close> counts as larger than \<open>-0\<close>.
\<close>

definition max_num :: "jsnum \<Rightarrow> jsnum \<Rightarrow> jsnum" where
  "max_num highest number =
     (if highest = NaN \<or> number = NaN then NaN
      else if number = Num 0 \<and> highest = NegZero then Num 0
      else if less_num highest number then number
      else highest)"

text \<open>\<open>Math.max(...vec)\<close>, which starts from \<open>-Infinity\<close>.\<close>

definition math_max :: "jsnum list \<Rightarrow> jsnum" where
  "math_max vec = foldl max_num NegInf vec"

text \<open>Strict equality \<open>===\<close> on numbers: \<open>NaN\<close> equals nothing, and the zeros are equal.\<close>

definition strict_eq :: "jsnum \<Rightarrow> jsnum \<Rightarrow> bool" where
  "strict_eq a b =
     (a \<noteq> NaN \<and> b \<noteq> NaN \<and> rank a = rank b \<and> num_value a = num_value b)"

type_synonym vec = "jsnum list"
type_synonym matrix = "vec list"

text \<open>
  An element read that feeds arithmetic: \<open>xs[i]\<close> beyond the end is \<open>undefined\<close>, which
  arithmetic converts to \<open>NaN\<close>.
\<close>

definition read_at :: "vec \<Rightarrow> nat \<Rightarrow> jsnum" where
  "read_at xs i = (if i < length xs then xs ! i else NaN)"

section \<open>Math helpers (App.jsx, lines 54-69)\<close>

datatype error = TypeError | DOMException

text \<open>
  \<open>matMul\<close> reads \<open>B[0].length\<close> first: with no row in \<open>B\<close> that is a property read
  on \<open>undefined\<close>, a \<open>TypeError\<close>. Nothing else is checked. Cell \<open>(i, j)\<close> of the
  result starts at 0 and receives \<open>A[i][k] * B[k][j]\<close> for \<open>k = 0 .. B.length - 1\<close>.
\<close>

definition matMul_cell :: "vec \<Rightarrow> matrix \<Rightarrow> nat \<Rightarrow> jsnum" where
  "matMul_cell a B j = foldl (\<lambda>acc k. acc + read_at a k * read_at (B ! k) j) 0 [0..<length B]"

definition matMul :: "matrix \<Rightarrow> matrix \<Rightarrow> error + matrix" where
  "matMul A B =
     (case B of
        [] \<Rightarrow> Inl TypeError
      | b0 # _ \<Rightarrow> Inr (map (\<lambda>a. map (matMul_cell a B) [0..<length b0]) A))"

text \<open>
  \<open>softmax\<close>. On the empty vector \<open>Math.max()\<close> is \<open>-Infinity\<close>, both maps run over no
  element and the result is the empty vector.
\<close>

definition softmax :: "vec \<Rightarrow> vec" where
  "softmax vec =
     (let mx = math_max vec;
          exps = map (\<lambda>x. math_exp (x - mx)) vec;
          sum = foldl (\<lambda>a b. a + b) 0 exps
      in map (\<lambda>x. divide_num x sum) exps)"

section \<open>Parameters and the key/value cache (App.jsx, lines 46-51 and 83)\<close>

record params =
  Wq :: "matrix list"
  Wk :: "matrix list"
  Wv :: "matrix list"
  Wo :: "matrix list"
  W_embed :: matrix
  W_out :: matrix

record kv_entry =
  kv_keys :: "vec list"
  kv_values :: "vec list"

text \<open>\<open>kvCacheRef.current\<close>: an object indexed by the layer number.\<close>

type_synonym kv_cache = "nat \<Rightarrow> kv_entry option"

definition empty_entry :: kv_entry where
  "empty_entry = \<lparr>kv_keys = [], kv_values = []\<rparr>"

text \<open>\<open>kvCacheRef.current[l] || { keys: [], values: [] }\<close>\<close>

definition cache_entry :: "kv_cache \<Rightarrow> nat \<Rightarrow> kv_entry" where
  "cache_entry c l = (case c l of None \<Rightarrow> empty_entry | Some kv \<Rightarrow> kv)"

section \<open>IndexedDB helpers (App.jsx, lines 7-31)\<close>

text \<open>
  A request of IndexedDB ends in one of its two handlers: \<open>onsuccess\<close>, with a result,
  or \<open>onerror\<close>. The environment fixes how the open request ends; whether
  \<open>db.transaction(...).objectStore(...).get(...)\<close> hands out a request or throws (as
  \<open>db.transaction\<close> does when the database has no such object store); and, for each
  layer key \<open>layer_l\<close>, how the \<open>get\<close> request ends: the result of a successful \<open>get\<close>
  is the stored entry, or \<open>undefined\<close> (\<open>None\<close>) when the store has no record under
  the key. A promise is modelled by how it settles: \<open>Inr\<close> resolved, \<open>Inl\<close> rejected.
  An exception thrown in the executor of \<open>new Promise\<close> rejects the promise.
\<close>

datatype 'a outcome = Success 'a | Failure

record idb_env =
  open_outcome :: "unit outcome"
  transaction_outcome :: "unit outcome"
  get_outcome :: "nat \<Rightarrow> kv_entry option outcome"

definition openDB :: "idb_env \<Rightarrow> error + unit" where
  "openDB env =
     (case open_outcome env of
        Success db \<Rightarrow> Inr db
      | Failure \<Rightarrow> Inl DOMException)"

definition getKV :: "idb_env \<Rightarrow> nat \<Rightarrow> error + kv_entry" where
  "getKV env layer =
     (case openDB env of
        Inl e \<Rightarrow> Inl e
      | Inr db \<Rightarrow>
          (case transaction_outcome env of
             Failure \<Rightarrow> Inl DOMException
           | Success req \<Rightarrow>
               (case get_outcome env layer of
                  Success result \<Rightarrow>
                    Inr (case result of None \<Rightarrow> empty_entry | Some kv \<Rightarrow> kv)
                | Failure \<Rightarrow> Inr empty_entry)))"

section \<open>The decoder step (App.jsx, lines 94-119)\<close>

text \<open>
  \<open>W_embed[inputToken]\<close> is \<open>undefined\<close> (\<open>None\<close>) for an index outside the matrix.
\<close>

definition embedding_row :: "matrix \<Rightarrow> int \<Rightarrow> vec option" where
  "embedding_row W t = (if 0 \<le> t \<and> nat t < length W then Some (W ! nat t) else None)"

text \<open>
  \<open>matMul([x], B)[0]\<close>. With \<open>x\<close> undefined, \<open>matMul\<close> raises a \<open>TypeError\<close> at
  \<open>B[0].length\<close> when \<open>B\<close> has no row and at \<open>A[0][0]\<close> when \<open>B\<close> has a column;
  when the rows of \<open>B\<close> are empty no cell is computed and the result row is empty.
\<close>

definition row_times :: "vec option \<Rightarrow> matrix \<Rightarrow> error + vec" where
  "row_times x B =
     (case x of
        Some a \<Rightarrow> (case matMul [a] B of Inl e \<Rightarrow> Inl e | Inr out \<Rightarrow> Inr (out ! 0))
      | None \<Rightarrow>
          (case B of
             [] \<Rightarrow> Inl TypeError
           | b0 # _ \<Rightarrow> if b0 = [] then Inr [] else Inl TypeError))"

text \<open>\<open>Wq[l]\<close>: for a missing layer it is \<open>undefined\<close>, and \<open>matMul\<close> raises at \<open>B[0]\<close>
  as it does for a matrix with no row.\<close>

definition layer_matrix :: "matrix list \<Rightarrow> nat \<Rightarrow> matrix" where
  "layer_matrix W l = (if l < length W then W ! l else [])"

text \<open>\<open>kvk.reduce((a, b, i) => a + kvk[i] * q[i], 0)\<close>\<close>

definition score :: "vec \<Rightarrow> vec \<Rightarrow> jsnum" where
  "score q kvk = foldl (\<lambda>a i. a + read_at kvk i * read_at q i) 0 [0..<length kvk]"

text \<open>The double loop that adds \<open>kv.values[i][j] * probs[i]\<close> to \<open>attn[j]\<close>.\<close>

definition attend :: "vec list \<Rightarrow> vec \<Rightarrow> vec" where
  "attend vals probs =
     foldl (\<lambda>attn i. map (\<lambda>j. attn ! j + read_at (vals ! i) j * read_at probs i) [0..<d_model])
       (replicate d_model 0) [0..<length vals]"

text \<open>
  One iteration of the loop over the layers, on the layer's cache entry. An exception
  leaves the function; under the shapes the program gives its weights, the only one is
  raised by the first product of layer 0, before any entry is touched. \<open>putKV(l, kv)\<close>
  starts a write to the database whose promise nobody awaits: it changes nothing that
  the step reads or returns.
\<close>

definition layer :: "params \<Rightarrow> nat \<Rightarrow> kv_entry \<Rightarrow> vec option \<Rightarrow> error + (vec \<times> kv_entry)" where
  "layer P l kv x =
     (case row_times x (layer_matrix (Wq P) l) of Inl e \<Rightarrow> Inl e | Inr q \<Rightarrow>
     (case row_times x (layer_matrix (Wk P) l) of Inl e \<Rightarrow> Inl e | Inr k \<Rightarrow>
     (case row_times x (layer_matrix (Wv P) l) of Inl e \<Rightarrow> Inl e | Inr v \<Rightarrow>
        (let kv' = \<lparr>kv_keys = kv_keys kv @ [k], kv_values = kv_values kv @ [v]\<rparr>;
             scores = map (score q) (kv_keys kv');
             probs = softmax scores;
             attn = attend (kv_values kv') probs
         in case row_times (Some attn) (layer_matrix (Wo P) l) of
              Inl e \<Rightarrow> Inl e
            | Inr x' \<Rightarrow> Inr (x', kv')))))"

text \<open>
  The loop \<open>for (let l = ...; l < n_layers; l++)\<close>, with \<open>n\<close> iterations left. The
  vector \<open>x\<close> is \<open>None\<close> while it is the \<open>undefined\<close> that an index outside the
  embedding matrix reads.
\<close>

fun layers :: "params \<Rightarrow> nat \<Rightarrow> nat \<Rightarrow> kv_cache \<Rightarrow> vec option \<Rightarrow> error + (vec option \<times> kv_cache)" where
  "layers P 0 l c x = Inr (x, c)"
| "layers P (Suc n) l c x =
     (case layer P l (cache_entry c l) x of
        Inl e \<Rightarrow> Inl e
      | Inr (x', kv') \<Rightarrow> layers P n (Suc l) (c(l \<mapsto> kv')) (Some x'))"

text \<open>\<open>indexOf\<close> searches from the left with strict equality and returns -1 when nothing
  matches.\<close>

fun indexOf_from :: "vec \<Rightarrow> jsnum \<Rightarrow> int \<Rightarrow> int" where
  "indexOf_from [] y i = -1"
| "indexOf_from (x # xs) y i = (if strict_eq x y then i else indexOf_from xs y (i + 1))"

text \<open>\<open>logits.indexOf(Math.max(...logits))\<close>\<close>

definition argmax_index :: "vec \<Rightarrow> int" where
  "argmax_index logits = indexOf_from logits (math_max logits) 0"

definition transformerStep :: "params \<Rightarrow> kv_cache \<Rightarrow> int \<Rightarrow> error + (int \<times> kv_cache)" where
  "transformerStep P c inputToken =
     (case layers P n_layers 0 c (embedding_row (W_embed P) inputToken) of
        Inl e \<Rightarrow> Inl e
      | Inr (x, c') \<Rightarrow>
          (case row_times x (W_out P) of
             Inl e \<Rightarrow> Inl e
           | Inr logits \<Rightarrow> Inr (argmax_index logits, c')))"

section \<open>The generation loop (App.jsx, lines 121-131)\<close>

text \<open>The \<open>for\<close> loop with \<open>n\<close> iterations left.\<close>

fun generate_loop :: "params \<Rightarrow> nat \<Rightarrow> kv_cache \<Rightarrow> int \<Rightarrow> int list \<Rightarrow> error + (int list \<times> kv_cache)" where
  "generate_loop P 0 c inputToken outputTokens = Inr (outputTokens, c)"
| "generate_loop P (Suc n) c inputToken outputTokens =
     (case transformerStep P c inputToken of
        Inl e \<Rightarrow> Inl e
      | Inr (tok, c') \<Rightarrow>
          if tok = EOS then Inr (outputTokens, c')
          else generate_loop P n c' tok (outputTokens @ [tok]))"

text \<open>
  \<open>userTokens[0]\<close> of an empty array is \<open>undefined\<close>, and \<open>W_embed[undefined]\<close> is
  \<open>undefined\<close> as \<open>W_embed[-1]\<close> is: the model writes -1 for it.
\<close>

definition first_token :: "int list \<Rightarrow> int" where
  "first_token userTokens = (case userTokens of [] \<Rightarrow> -1 | t # _ \<Rightarrow> t)"

definition generateBotResponse :: "params \<Rightarrow> kv_cache \<Rightarrow> int list \<Rightarrow> error + (int list \<times> kv_cache)" where
  "generateBotResponse P c userTokens = generate_loop P maxTokens c (first_token userTokens) []"

section \<open>Shapes: what the program's weights and a well-formed cache look like\<close>

text \<open>
  \<open>randomMatrix(rows, cols)\<close> builds \<open>rows\<close> rows of \<open>cols\<close> numbers. The weights are
  built once, with the shapes below, and never written again. A cache entry is well
  formed when it holds as many keys as values, all of them vectors of \<open>d_model\<close>
  numbers.
\<close>

definition is_vec :: "nat \<Rightarrow> vec \<Rightarrow> bool" where
  "is_vec n v = (length v = n)"

definition is_matrix :: "nat \<Rightarrow> nat \<Rightarrow> matrix \<Rightarrow> bool" where
  "is_matrix r c M = (length M = r \<and> list_all (is_vec c) M)"

definition wf_params :: "params \<Rightarrow> bool" where
  "wf_params P =
     (length (Wq P) = n_layers \<and> list_all (is_matrix d_model d_model) (Wq P)
      \<and> length (Wk P) = n_layers \<and> list_all (is_matrix d_model d_model) (Wk P)
      \<and> length (Wv P) = n_layers \<and> list_all (is_matrix d_model d_model) (Wv P)
      \<and> length (Wo P) = n_layers \<and> list_all (is_matrix d_model d_model) (Wo P)
      \<and> is_matrix vocab_size d_model (W_embed P)
      \<and> is_matrix d_model vocab_size (W_out P))"

definition wf_entry :: "kv_entry \<Rightarrow> bool" where
  "wf_entry kv =
     (length (kv_keys kv) = length (kv_values kv)
      \<and> list_all (is_vec d_model) (kv_keys kv)
      \<and> list_all (is_vec d_model) (kv_values kv))"

definition wf_cache :: "kv_cache \<Rightarrow> bool" where
  "wf_cache c = list_all (\<lambda>l. wf_entry (cache_entry c l)) [0..<n_layers]"

text \<open>
  The caches that \<open>n\<close> successive decoder steps, on any input tokens, lead to from a
  cache \<open>c\<close>.
\<close>

inductive reachable :: "params \<Rightarrow> kv_cache \<Rightarrow> nat \<Rightarrow> kv_cache \<Rightarrow> bool" for P c where
  start: "reachable P c 0 c"
| step: "reachable P c n c' \<Longrightarrow> transformerStep P c' t = Inr (tok, c'') \<Longrightarrow>
         reachable P c (Suc n) c''"

section \<open>The reference definition of the decoder step\<close>

text \<open>
  The decoder step as the specification words it, on whole vectors, in the arithmetic
  of doubles with every sum accumulated from 0 in index order: the dot product, the
  product of a row vector with a matrix (its dot products with the columns), the
  softmax of the kernel, the sum of the cached values weighted by the probabilities,
  and the first index of an entry that no entry exceeds.
\<close>

definition sum_left :: "vec \<Rightarrow> jsnum" where
  "sum_left xs = foldl (\<lambda>a b. a + b) 0 xs"

definition dot :: "vec \<Rightarrow> vec \<Rightarrow> jsnum" where
  "dot u v = sum_left (map2 (\<lambda>a b. a * b) u v)"

definition column :: "matrix \<Rightarrow> nat \<Rightarrow> vec" where
  "column M j = map (\<lambda>row. row ! j) M"

definition row_product :: "vec \<Rightarrow> matrix \<Rightarrow> vec" where
  "row_product x M = map (\<lambda>j. dot x (column M j)) [0..<length (hd M)]"

definition weighted_sum :: "vec \<Rightarrow> vec list \<Rightarrow> vec" where
  "weighted_sum p V = map (\<lambda>j. dot (column V j) p) [0..<d_model]"

definition is_max_at :: "vec \<Rightarrow> nat \<Rightarrow> bool" where
  "is_max_at z i = (i < length z \<and> list_all (\<lambda>a. a \<noteq> NaN \<and> \<not> less_num (z ! i) a) z)"

definition first_argmax :: "vec \<Rightarrow> nat option" where
  "first_argmax z = find (is_max_at z) [0..<length z]"

text \<open>The number that stands for a position, and \<open>-1\<close> for none.\<close>

definition index_or_minus_one :: "nat option \<Rightarrow> int" where
  "index_or_minus_one r = (case r of Some i \<Rightarrow> int i | None \<Rightarrow> - 1)"

definition ref_layer :: "params \<Rightarrow> nat \<Rightarrow> kv_entry \<Rightarrow> vec \<Rightarrow> vec \<times> kv_entry" where
  "ref_layer P l e x =
     (let q = row_product x (Wq P ! l);
          k = row_product x (Wk P ! l);
          v = row_product x (Wv P ! l);
          K = kv_keys e @ [k];
          V = kv_values e @ [v];
          scores = map (\<lambda>key. dot key q) K;
          probs = softmax scores;
          attn = weighted_sum probs V
      in (row_product attn (Wo P ! l), \<lparr>kv_keys = K, kv_values = V\<rparr>))"

fun ref_layers :: "params \<Rightarrow> nat list \<Rightarrow> kv_cache \<Rightarrow> vec \<Rightarrow> vec \<times> kv_cache" where
  "ref_layers P [] c x = (x, c)"
| "ref_layers P (l # ls) c x =
     (let (x', e') = ref_layer P l (cache_entry c l) x in ref_layers P ls (c(l \<mapsto> e')) x')"

definition ref_logits :: "params \<Rightarrow> kv_cache \<Rightarrow> nat \<Rightarrow> vec" where
  "ref_logits P c t =
     row_product (fst (ref_layers P [0..<n_layers] c (W_embed P ! t))) (W_out P)"

definition ref_cache :: "params \<Rightarrow> kv_cache \<Rightarrow> nat \<Rightarrow> kv_cache" where
  "ref_cache P c t = snd (ref_layers P [0..<n_layers] c (W_embed P ! t))"

section \<open>Concrete parameter sets and caches\<close>

text \<open>
  Weights with the shapes of the program and constant rows: all 0; key, value and
  output matrices of \<open>1/32\<close> with an embedding that is \<open>1/32\<close> on token 0 only and an
  output projection whose last column is \<open>1/16\<close>; and \<open>1/16\<close> in the embedding and the
  query matrices with 0 elsewhere. \<open>iter_add n t\<close> is the sum of
  \<open>n\<close> terms \<open>t\<close>, accumulated from 0.
\<close>

definition iter_add :: "nat \<Rightarrow> jsnum \<Rightarrow> jsnum" where
  "iter_add n t = foldl (\<lambda>acc (k::nat). acc + t) 0 [0..<n]"

definition const_vec :: "jsnum \<Rightarrow> vec" where
  "const_vec a = replicate d_model a"

definition const_matrix :: "nat \<Rightarrow> nat \<Rightarrow> jsnum \<Rightarrow> matrix" where
  "const_matrix r c a = replicate r (replicate c a)"

definition zero_params :: params where
  "zero_params =
     \<lparr>Wq = replicate n_layers (const_matrix d_model d_model (Num 0)),
      Wk = replicate n_layers (const_matrix d_model d_model (Num 0)),
      Wv = replicate n_layers (const_matrix d_model d_model (Num 0)),
      Wo = replicate n_layers (const_matrix d_model d_model (Num 0)),
      W_embed = const_matrix vocab_size d_model (Num 0),
      W_out = const_matrix d_model vocab_size (Num 0)\<rparr>"

definition demo_params :: params where
  "demo_params =
     \<lparr>Wq = replicate n_layers (const_matrix d_model d_model (Num 0)),
      Wk = replicate n_layers (const_matrix d_model d_model (Num (1 / 32))),
      Wv = replicate n_layers (const_matrix d_model d_model (Num (1 / 32))),
      Wo = replicate n_layers (const_matrix d_model d_model (Num (1 / 32))),
      W_embed = const_vec (Num (1 / 32)) # const_matrix (vocab_size - 1) d_model (Num 0),
      W_out = replicate d_model (replicate (vocab_size - 1) (Num (1 / 32)) @ [Num (1 / 16)])\<rparr>"

definition overflow_params :: params where
  "overflow_params =
     \<lparr>Wq = replicate n_layers (const_matrix d_model d_model (Num (1 / 16))),
      Wk = replicate n_layers (const_matrix d_model d_model (Num 0)),
      Wv = replicate n_layers (const_matrix d_model d_model (Num 0)),
      Wo = replicate n_layers (const_matrix d_model d_model (Num 0)),
      W_embed = const_matrix vocab_size d_model (Num (1 / 16)),
      W_out = const_matrix d_model vocab_size (Num 0)\<rparr>"

text \<open>The largest power of two among the doubles.\<close>

definition huge :: real where
  "huge = 2 ^ 1023"

definition empty_cache :: kv_cache where
  "empty_cache = (\<lambda>l. None)"

definition one_entry :: "jsnum \<Rightarrow> jsnum \<Rightarrow> kv_entry" where
  "one_entry k v = \<lparr>kv_keys = [const_vec k], kv_values = [const_vec v]\<rparr>"

text \<open>The cache after one decoder step on the zero weights, from the empty cache.\<close>

definition one_step_cache :: kv_cache where
  "one_step_cache = empty_cache(0 \<mapsto> one_entry (Num 0) (Num 0), 1 \<mapsto> one_entry (Num 0) (Num 0))"

text \<open>A cache whose entry for layer 0 holds no key and one value.\<close>

definition malformed_cache :: kv_cache where
  "malformed_cache = empty_cache(0 \<mapsto> \<lparr>kv_keys = [], kv_values = [const_vec (Num 0)]\<rparr>)"

text \<open>A well-formed cache whose one key in layer 0 has the entries \<open>huge\<close>.\<close>

definition overflow_cache :: kv_cache where
  "overflow_cache = empty_cache(0 \<mapsto> one_entry (Num huge) (Num 0))"

text \<open>The caches that the decoder steps on these inputs lead to.\<close>

definition demo_cache :: kv_cache where
  "demo_cache =
     empty_cache
       (0 \<mapsto> \<lparr>kv_keys = [const_vec (Num 0), const_vec (Num (1 / 32))],
              kv_values = [const_vec (Num 0), const_vec (Num (1 / 32))]\<rparr>,
        1 \<mapsto> \<lparr>kv_keys = [const_vec (Num 0), const_vec (Num (1 / 64))],
              kv_values = [const_vec (Num 0), const_vec (Num (1 / 64))]\<rparr>)"

definition malformed_after :: kv_cache where
  "malformed_after =
     malformed_cache
       (0 \<mapsto> \<lparr>kv_keys = [const_vec (Num 0)], kv_values = [const_vec (Num 0), const_vec (Num 0)]\<rparr>,
        1 \<mapsto> one_entry NaN NaN)"

definition overflow_after :: kv_cache where
  "overflow_after =
     overflow_cache
       (0 \<mapsto> \<lparr>kv_keys = [const_vec (Num huge), const_vec (Num 0)],
              kv_values = [const_vec (Num 0), const_vec (Num 0)]\<rparr>,
        1 \<mapsto> one_entry NaN NaN)"

section \<open>The grid of the doubles around a number\<close>

text \<open>
  \<open>on_grid x a\<close>: the number \<open>a\<close> is a multiple of the unit in the last place of \<open>x\<close>,
  that is, one of the values among which \<open>x\<close> is rounded.
\<close>

definition on_grid :: "real \<Rightarrow> real \<Rightarrow> bool" where
  "on_grid x a = (\<exists>n::int. a = of_int n * ulp x)"

lemma two_powr_int: "(2::real) powr real_of_int k = 2 powi k"
  by (rule powr_real_of_int') simp_all

lemma ulp_pos [simp]: "0 < ulp x"
  by (simp add: ulp_def)

lemma ulp_nonneg [simp]: "0 \<le> ulp x"
  by (simp add: ulp_def)

lemma ulp_neq_0 [simp]: "ulp x \<noteq> 0"
  by (simp add: ulp_def)

lemma expo_ge: "- 1022 \<le> expo x"
  by (simp add: expo_def)

lemma floor_log2_bounds:
  assumes "x \<noteq> 0"
  shows "2 powi \<lfloor>log 2 \<bar>x\<bar>\<rfloor> \<le> \<bar>x\<bar>" and "\<bar>x\<bar> < 2 powi (\<lfloor>log 2 \<bar>x\<bar>\<rfloor> + 1)"
proof -
  have p: "0 < \<bar>x\<bar>" using assms by simp
  have "2 powr real_of_int \<lfloor>log 2 \<bar>x\<bar>\<rfloor> \<le> \<bar>x\<bar>
      \<and> \<bar>x\<bar> < 2 powr real_of_int (\<lfloor>log 2 \<bar>x\<bar>\<rfloor> + 1)"
    using floor_log_eq_powr_iff [OF p, of 2 "\<lfloor>log 2 \<bar>x\<bar>\<rfloor>"] by simp
  then show "2 powi \<lfloor>log 2 \<bar>x\<bar>\<rfloor> \<le> \<bar>x\<bar>" and "\<bar>x\<bar> < 2 powi (\<lfloor>log 2 \<bar>x\<bar>\<rfloor> + 1)"
    by (simp_all only: two_powr_int)
qed

lemma floor_log2_unique:
  assumes "2 powi k \<le> \<bar>x\<bar>" "\<bar>x\<bar> < 2 powi (k + 1)"
  shows "\<lfloor>log 2 \<bar>x\<bar>\<rfloor> = k"
proof -
  have p: "0 < \<bar>x\<bar>" using assms(1) by (smt (verit) zero_less_power_int)
  have "2 powr real_of_int k \<le> \<bar>x\<bar>" "\<bar>x\<bar> < 2 powr (real_of_int k + 1)"
    using assms two_powr_int [of k] two_powr_int [of "k + 1"] by simp_all
  then show ?thesis
    using floor_log_eq_powr_iff [OF p, of 2 k] by simp
qed

lemma abs_less_next: "\<bar>x\<bar> < 2 powi (expo x + 1)"
proof (cases "x = 0")
  case True
  then show ?thesis by simp
next
  case False
  have "\<lfloor>log 2 \<bar>x\<bar>\<rfloor> + 1 \<le> expo x + 1" using False by (simp add: expo_def)
  then have "(2::real) powi (\<lfloor>log 2 \<bar>x\<bar>\<rfloor> + 1) \<le> 2 powi (expo x + 1)"
    by (intro power_int_increasing) simp_all
  with floor_log2_bounds(2) [OF False] show ?thesis by simp
qed

lemma expo_le:
  assumes "\<bar>x\<bar> < 2 powi (k + 1)" "- 1022 \<le> k"
  shows "expo x \<le> k"
proof (cases "x = 0")
  case True
  then show ?thesis using assms(2) by (simp add: expo_def)
next
  case False
  have "\<lfloor>log 2 \<bar>x\<bar>\<rfloor> \<le> k"
  proof (rule ccontr)
    assume "\<not> \<lfloor>log 2 \<bar>x\<bar>\<rfloor> \<le> k"
    then have "k + 1 \<le> \<lfloor>log 2 \<bar>x\<bar>\<rfloor>" by simp
    then have "(2::real) powi (k + 1) \<le> 2 powi \<lfloor>log 2 \<bar>x\<bar>\<rfloor>"
      by (intro power_int_increasing) simp_all
    with floor_log2_bounds(1) [OF False] assms(1) show False by simp
  qed
  with assms(2) False show ?thesis by (simp add: expo_def)
qed

lemma normal_ge:
  assumes "2 powi (- 1022) \<le> \<bar>x\<bar>"
  shows "2 powi expo x \<le> \<bar>x\<bar>"
proof -
  have nz: "x \<noteq> 0" using assms by (smt (verit) zero_less_power_int)
  have "- 1022 \<le> \<lfloor>log 2 \<bar>x\<bar>\<rfloor>"
  proof (rule ccontr)
    assume "\<not> - 1022 \<le> \<lfloor>log 2 \<bar>x\<bar>\<rfloor>"
    then have "\<lfloor>log 2 \<bar>x\<bar>\<rfloor> + 1 \<le> - 1022" by linarith
    then have "(2::real) powi (\<lfloor>log 2 \<bar>x\<bar>\<rfloor> + 1) \<le> 2 powi (- 1022)"
      by (intro power_int_increasing) simp_all
    with floor_log2_bounds(2) [OF nz] assms show False by simp
  qed
  then have "expo x = \<lfloor>log 2 \<bar>x\<bar>\<rfloor>" using nz by (simp add: expo_def)
  with floor_log2_bounds(1) [OF nz] show ?thesis by simp
qed

lemma subnormal_expo:
  assumes "\<bar>x\<bar> < 2 powi (- 1022)"
  shows "expo x = - 1022"
  using expo_le [of x "- 1023"] assms expo_ge [of x] expo_le [of x "-1022"]
  by (smt (verit) abs_less_next power_int_increasing expo_le)

lemma rne_error: "\<bar>of_int (rne q) - q\<bar> \<le> 1 / 2"
proof -
  define f where "f = \<lfloor>q\<rfloor>"
  have b: "of_int f \<le> q" "q < of_int f + 1" unfolding f_def by linarith+
  have "rne q = (if q - of_int f < 1 / 2 then f
      else if 1 / 2 < q - of_int f then f + 1
      else if even f then f else f + 1)"
    by (simp add: rne_def f_def)
  with b show ?thesis by (auto simp: abs_le_iff)
qed

lemma rne_of_int [simp]: "rne (of_int k) = k"
  by (simp add: rne_def)

lemma rne_le: "q \<le> of_int k \<Longrightarrow> rne q \<le> k"
proof -
  assume a: "q \<le> of_int k"
  show ?thesis
  proof (cases "q = of_int k")
    case True
    then show ?thesis by simp
  next
    case False
    with a have "q < of_int k" by simp
    then have "\<lfloor>q\<rfloor> < k" by (simp add: floor_less_iff)
    then show ?thesis unfolding rne_def Let_def by auto
  qed
qed

lemma rne_ge: "of_int k \<le> q \<Longrightarrow> k \<le> rne q"
proof -
  assume "of_int k \<le> q"
  then have "k \<le> \<lfloor>q\<rfloor>" by (simp add: le_floor_iff)
  then show ?thesis unfolding rne_def Let_def by auto
qed

lemma round_real_error: "\<bar>round_real x - x\<bar> \<le> ulp x / 2"
proof -
  have "round_real x - x = (of_int (rne (x / ulp x)) - x / ulp x) * ulp x"
    by (simp add: round_real_def left_diff_distrib)
  then have "\<bar>round_real x - x\<bar> = \<bar>of_int (rne (x / ulp x)) - x / ulp x\<bar> * ulp x"
    by (simp add: abs_mult)
  also have "\<dots> \<le> (1 / 2) * ulp x"
    by (intro mult_right_mono rne_error) simp
  finally show ?thesis by simp
qed

lemma round_real_le:
  assumes "on_grid x a" "x \<le> a"
  shows "round_real x \<le> a"
proof -
  from assms(1) obtain n :: int where a: "a = of_int n * ulp x" by (auto simp: on_grid_def)
  have "x / ulp x \<le> of_int n" using assms(2) a by (simp add: pos_divide_le_eq)
  then have "rne (x / ulp x) \<le> n" by (rule rne_le)
  then have "of_int (rne (x / ulp x)) * ulp x \<le> of_int n * ulp x"
    by (intro mult_right_mono) simp_all
  then show ?thesis by (simp add: round_real_def a)
qed

lemma round_real_ge:
  assumes "on_grid x a" "a \<le> x"
  shows "a \<le> round_real x"
proof -
  from assms(1) obtain n :: int where a: "a = of_int n * ulp x" by (auto simp: on_grid_def)
  have "of_int n \<le> x / ulp x" using assms(2) a by (simp add: pos_le_divide_eq)
  then have "n \<le> rne (x / ulp x)" by (rule rne_ge)
  then have "of_int n * ulp x \<le> of_int (rne (x / ulp x)) * ulp x"
    by (intro mult_right_mono) simp_all
  then show ?thesis by (simp add: round_real_def a)
qed

lemma round_real_exact: "on_grid x x \<Longrightarrow> round_real x = x"
  using round_real_le [of x x] round_real_ge [of x x] by simp

lemma on_grid_0 [simp]: "on_grid x 0"
  by (auto simp: on_grid_def intro: exI [of _ 0])

lemma on_grid_pow2:
  assumes "expo x - 52 \<le> k"
  shows "on_grid x (2 powi k)"
proof -
  have "(2::real) powi k = 2 powi (k - (expo x - 52)) * 2 powi (expo x - 52)"
    by (simp add: power_int_add [symmetric])
  also have "(2::real) powi (k - (expo x - 52)) = of_int (2 ^ nat (k - (expo x - 52)))"
    using assms by (simp add: power_int_def)
  finally show ?thesis unfolding on_grid_def ulp_def by blast
qed

lemma on_grid_scaled:
  assumes "x = of_int m * 2 powi e" "\<bar>m\<bar> < 2 ^ 53" "- 1074 \<le> e"
  shows "on_grid x x"
proof -
  have "\<bar>x\<bar> = of_int \<bar>m\<bar> * 2 powi e" by (simp add: assms(1) abs_mult)
  also have "\<dots> < 2 ^ 53 * 2 powi e"
    using assms(2) by (intro mult_strict_right_mono) (simp_all add: of_int_less_iff [where 'a = real, symmetric] del: of_int_less_iff)
  also have "\<dots> = 2 powi (e + 52 + 1)"
    by (simp add: power_int_add)
  finally have "expo x \<le> e + 52" using assms(3) by (intro expo_le) simp_all
  then have d: "0 \<le> e - (expo x - 52)" by simp
  have "(2::real) powi e = 2 powi (e - (expo x - 52)) * 2 powi (expo x - 52)"
    by (simp add: power_int_add [symmetric])
  also have "(2::real) powi (e - (expo x - 52)) = of_int (2 ^ nat (e - (expo x - 52)))"
    using d by (simp add: power_int_def)
  finally have "x = of_int (m * 2 ^ nat (e - (expo x - 52))) * ulp x"
    by (simp add: assms(1) ulp_def)
  then show ?thesis unfolding on_grid_def by blast
qed

lemma round_real_0 [simp]: "round_real 0 = 0"
  by (simp add: round_real_def rne_def)

lemma round_real_nonneg: "0 \<le> x \<Longrightarrow> 0 \<le> round_real x"
  by (rule round_real_ge) simp_all

lemma round_real_nonpos: "x \<le> 0 \<Longrightarrow> round_real x \<le> 0"
  by (rule round_real_le) simp_all

lemma round_real_le_pow2:
  assumes "\<bar>x\<bar> \<le> 2 powi k" "- 1022 \<le> k"
  shows "\<bar>round_real x\<bar> \<le> 2 powi k"
proof -
  have "\<bar>x\<bar> < 2 powi (k + 1)"
    using assms(1) power_int_strict_increasing [of k "k + 1" "2::real"] by simp
  then have "expo x \<le> k" using assms(2) by (rule expo_le)
  then have g: "on_grid x (2 powi k)" by (intro on_grid_pow2) simp
  then have g': "on_grid x (- (2 powi k))"
    unfolding on_grid_def by (metis mult_minus_left of_int_minus)
  have "round_real x \<le> 2 powi k" using g assms(1) by (intro round_real_le) simp_all
  moreover have "- (2 powi k) \<le> round_real x" using g' assms(1) by (intro round_real_ge) simp_all
  ultimately show ?thesis by simp
qed

lemma round_real_ge_pow2:
  assumes "2 powi k \<le> x" "- 1022 \<le> k"
  shows "2 powi k \<le> round_real x"
proof -
  have x: "2 powi (- 1022) \<le> \<bar>x\<bar>"
    using assms power_int_increasing [of "- 1022" k "2::real"] by simp
  have e: "2 powi expo x \<le> x" using normal_ge [OF x] assms(1)
    by (smt (verit) zero_less_power_int)
  show ?thesis
  proof (cases "expo x - 52 \<le> k")
    case True
    then show ?thesis using assms(1) by (intro round_real_ge on_grid_pow2)
  next
    case False
    then have "k \<le> expo x" by simp
    then have "(2::real) powi k \<le> 2 powi expo x" by (intro power_int_increasing) simp_all
    moreover have "2 powi expo x \<le> round_real x"
      using e by (intro round_real_ge on_grid_pow2) simp_all
    ultimately show ?thesis by simp
  qed
qed

lemma round_real_rel_error:
  assumes "2 powi (- 1022) \<le> \<bar>x\<bar>"
  shows "\<bar>round_real x - x\<bar> \<le> \<bar>x\<bar> / 2 ^ 53"
proof -
  have "ulp x = 2 powi expo x / 2 ^ 52"
    by (simp add: ulp_def power_int_diff)
  also have "\<dots> \<le> \<bar>x\<bar> / 2 ^ 52"
    using normal_ge [OF assms] by (simp add: divide_right_mono)
  finally have "ulp x / 2 \<le> \<bar>x\<bar> / 2 ^ 53" by simp
  with round_real_error [of x] show ?thesis by linarith
qed

lemma round_real_abs_error:
  assumes "\<bar>x\<bar> < 2 powi (- 1022)"
  shows "\<bar>round_real x - x\<bar> \<le> 2 powi (- 1075)"
proof -
  have "ulp x = 2 powi (- 1074)" by (simp add: ulp_def subnormal_expo [OF assms])
  then have "ulp x / 2 = 2 powi (- 1075)"
    by (simp add: power_int_diff [of 2 "- 1074" 1, simplified])
  with round_real_error [of x] show ?thesis by simp
qed


section \<open>Exact results\<close>

lemma fl_exact:
  assumes "x = of_int m * 2 powi e" "\<bar>m\<bar> < 2 ^ 53" "- 1074 \<le> e" "\<bar>x\<bar> < 2 ^ 1024" "x \<noteq> 0"
  shows "fl neg x = Num x"
proof -
  have "round_real x = x" by (intro round_real_exact on_grid_scaled [OF assms(1-3)])
  with assms(4,5) show ?thesis by (simp add: fl_def)
qed

lemma fl_0 [simp]: "fl neg 0 = signed_zero neg"
  by (simp add: fl_def signed_zero_def)

lemma fl_1 [simp]: "fl neg 1 = Num 1"
  by (rule fl_exact [of 1 1 0]) simp_all

lemma fl_overflow:
  assumes "2 ^ 1024 \<le> x"
  shows "fl neg x = PosInf"
proof -
  have "2 powi 1024 \<le> round_real x"
    using assms by (intro round_real_ge_pow2) simp_all
  then have "2 ^ 1024 \<le> \<bar>round_real x\<bar>" by simp
  moreover have "0 < x" using assms by (smt (verit) zero_less_power)
  ultimately show ?thesis by (simp add: fl_def)
qed

lemma NaN_plus [simp]: "NaN + a = NaN" "a + NaN = NaN"
  by (simp_all add: plus_jsnum_def)

lemma NaN_times [simp]: "NaN * a = NaN" "a * NaN = NaN"
  by (simp_all add: times_jsnum_def)

lemma NaN_minus [simp]: "NaN - a = NaN" "a - NaN = NaN"
  by (simp_all add: minus_jsnum_def)

lemma zero_plus_zero [simp]: "Num 0 + Num 0 = Num 0"
  by (simp add: plus_jsnum_def signed_zero_def)

lemma zero_times_zero [simp]: "Num 0 * Num 0 = Num 0"
  by (simp add: times_jsnum_def signed_zero_def)

lemma zero_minus_zero [simp]: "Num 0 - Num 0 = Num 0"
  by (simp add: minus_jsnum_def plus_jsnum_def signed_zero_def)

lemma zero_plus_one [simp]: "Num 0 + Num 1 = Num 1"
  by (simp add: plus_jsnum_def)

lemma one_div_one [simp]: "divide_num (Num 1) (Num 1) = Num 1"
  by (simp add: divide_num_def)

lemma zero_times_one [simp]: "Num 0 * Num 1 = Num 0"
  by (simp add: times_jsnum_def signed_zero_def)

lemma PosInf_plus_Num [simp]: "PosInf + Num r = PosInf"
  by (simp add: plus_jsnum_def)

lemma matMul_fails_iff: "(\<exists>e. matMul A B = Inl e) \<longleftrightarrow> B = []"
  by (cases B) (simp_all add: matMul_def)

lemma row_times_Some_Cons:
  "row_times (Some a) (b0 # B') = Inr (map (matMul_cell a (b0 # B')) [0..<length b0])"
  by (simp add: row_times_def matMul_def)

lemma row_times_Some_ok: "B \<noteq> [] \<Longrightarrow> \<exists>r. row_times (Some a) B = Inr r"
  by (cases B) (simp_all add: row_times_Some_Cons)

lemma layer_appends:
  assumes "layer P l kv x = Inr (x', kv')"
  shows "\<exists>k v. kv_keys kv' = kv_keys kv @ [k] \<and> kv_values kv' = kv_values kv @ [v]"
  using assms by (auto simp: layer_def Let_def split: sum.splits)

lemma layer_Some_ok:
  assumes "layer_matrix (Wq P) l \<noteq> []" "layer_matrix (Wk P) l \<noteq> []"
    "layer_matrix (Wv P) l \<noteq> []" "layer_matrix (Wo P) l \<noteq> []"
  shows "\<exists>x' kv'. layer P l kv (Some a) = Inr (x', kv')"
proof -
  obtain q where q: "row_times (Some a) (layer_matrix (Wq P) l) = Inr q"
    using row_times_Some_ok [OF assms(1)] by blast
  obtain k where k: "row_times (Some a) (layer_matrix (Wk P) l) = Inr k"
    using row_times_Some_ok [OF assms(2)] by blast
  obtain v where v: "row_times (Some a) (layer_matrix (Wv P) l) = Inr v"
    using row_times_Some_ok [OF assms(3)] by blast
  show ?thesis
    using row_times_Some_ok [OF assms(4)] q k v
    by (simp add: layer_def Let_def split: sum.splits) (metis sum.exhaust sum.distinct(1))
qed

lemma layers_appends:
  assumes "layers P n l c x = Inr (x', c')"
  shows "(\<forall>m. l \<le> m \<and> m < l + n \<longrightarrow>
            (\<exists>k v. kv_keys (cache_entry c' m) = kv_keys (cache_entry c m) @ [k]
                 \<and> kv_values (cache_entry c' m) = kv_values (cache_entry c m) @ [v]))
       \<and> (\<forall>m. m < l \<or> l + n \<le> m \<longrightarrow> c' m = c m)"
  using assms
proof (induction n arbitrary: l c x)
  case 0
  then show ?case by simp
next
  case (Suc n)
  from Suc.prems obtain x1 kv1 where
    l1: "layer P l (cache_entry c l) x = Inr (x1, kv1)"
    and rest: "layers P n (Suc l) (c(l \<mapsto> kv1)) (Some x1) = Inr (x', c')"
    by (auto split: sum.splits)
  note ih = Suc.IH [OF rest]
  from layer_appends [OF l1] obtain k v where
    kv: "kv_keys kv1 = kv_keys (cache_entry c l) @ [k]"
        "kv_values kv1 = kv_values (cache_entry c l) @ [v]" by blast
  have here: "c' l = Some kv1" using ih by simp
  show ?case
  proof (intro conjI allI impI)
    fix m assume m: "l \<le> m \<and> m < l + Suc n"
    show "\<exists>k v. kv_keys (cache_entry c' m) = kv_keys (cache_entry c m) @ [k]
                 \<and> kv_values (cache_entry c' m) = kv_values (cache_entry c m) @ [v]"
    proof (cases "m = l")
      case True
      then show ?thesis using here kv by (simp add: cache_entry_def)
    next
      case False
      with m have "Suc l \<le> m \<and> m < Suc l + n" by simp
      with ih False show ?thesis by (simp add: cache_entry_def)
    qed
  next
    fix m assume "m < l \<or> l + Suc n \<le> m"
    then show "c' m = c m" using ih by auto
  qed
qed

lemma layers_Some_ok:
  assumes "\<forall>m. l \<le> m \<and> m < l + n \<longrightarrow>
      layer_matrix (Wq P) m \<noteq> [] \<and> layer_matrix (Wk P) m \<noteq> []
      \<and> layer_matrix (Wv P) m \<noteq> [] \<and> layer_matrix (Wo P) m \<noteq> []"
  shows "\<exists>x' c'. layers P n l c (Some a) = Inr (Some x', c')"
  using assms
proof (induction n arbitrary: l c a)
  case 0
  then show ?case by simp
next
  case (Suc n)
  have "\<exists>x1 kv1. layer P l (cache_entry c l) (Some a) = Inr (x1, kv1)"
    using Suc.prems by (intro layer_Some_ok) auto
  then obtain x1 kv1 where l1: "layer P l (cache_entry c l) (Some a) = Inr (x1, kv1)" by blast
  have "\<exists>x' c'. layers P n (Suc l) (c(l \<mapsto> kv1)) (Some x1) = Inr (Some x', c')"
    using Suc.prems by (intro Suc.IH) auto
  with l1 show ?case by auto
qed

lemma wf_params_layer_matrix:
  assumes "wf_params P" "l < n_layers"
  shows "layer_matrix (Wq P) l \<noteq> [] \<and> layer_matrix (Wk P) l \<noteq> []
      \<and> layer_matrix (Wv P) l \<noteq> [] \<and> layer_matrix (Wo P) l \<noteq> []"
  using assms
  by (auto simp: wf_params_def layer_matrix_def list_all_length is_matrix_def d_model_def)

lemma transformerStep_ok:
  assumes P: "wf_params P" and t: "0 \<le> t" "t < int vocab_size"
  shows "\<exists>tok c'. transformerStep P c t = Inr (tok, c')"
proof -
  have "nat t < length (W_embed P)"
    using P t by (simp add: wf_params_def is_matrix_def)
  with t obtain a where a: "embedding_row (W_embed P) t = Some a"
    by (simp add: embedding_row_def)
  have "\<exists>x' c'. layers P n_layers 0 c (Some a) = Inr (Some x', c')"
    using wf_params_layer_matrix [OF P] by (intro layers_Some_ok) auto
  then obtain x' c' where l: "layers P n_layers 0 c (Some a) = Inr (Some x', c')"
    by blast
  have "W_out P \<noteq> []" using P by (auto simp: wf_params_def is_matrix_def d_model_def)
  from row_times_Some_ok [OF this] obtain r where "row_times (Some x') (W_out P) = Inr r"
    by blast
  with a l show ?thesis by (simp add: transformerStep_def)
qed

lemma transformerStep_appends:
  assumes "transformerStep P c t = Inr (tok, c')"
  shows "(\<forall>l<n_layers.
            (\<exists>k v. kv_keys (cache_entry c' l) = kv_keys (cache_entry c l) @ [k]
                 \<and> kv_values (cache_entry c' l) = kv_values (cache_entry c l) @ [v]))
       \<and> (\<forall>l\<ge>n_layers. c' l = c l)"
proof -
  from assms obtain x' where "layers P n_layers 0 c (embedding_row (W_embed P) t) = Inr (x', c')"
    by (auto simp: transformerStep_def split: sum.splits)
  from layers_appends [OF this] show ?thesis by simp
qed

lemma reachable_appends:
  assumes "reachable P c n c'" "l < n_layers"
  shows "\<exists>ks vs. length ks = n \<and> length vs = n
      \<and> kv_keys (cache_entry c' l) = kv_keys (cache_entry c l) @ ks
      \<and> kv_values (cache_entry c' l) = kv_values (cache_entry c l) @ vs"
  using assms
proof (induction rule: reachable.induct)
  case start
  then show ?case by simp
next
  case (step n c' t tok c'')
  then obtain ks vs where ih: "length ks = n" "length vs = n"
      "kv_keys (cache_entry c' l) = kv_keys (cache_entry c l) @ ks"
      "kv_values (cache_entry c' l) = kv_values (cache_entry c l) @ vs" by blast
  from transformerStep_appends [OF step.hyps(2)] step.prems obtain k v where
    "kv_keys (cache_entry c'' l) = kv_keys (cache_entry c' l) @ [k]"
    "kv_values (cache_entry c'' l) = kv_values (cache_entry c' l) @ [v]" by blast
  with ih have "length (ks @ [k]) = Suc n \<and> length (vs @ [v]) = Suc n
      \<and> kv_keys (cache_entry c'' l) = kv_keys (cache_entry c l) @ (ks @ [k])
      \<and> kv_values (cache_entry c'' l) = kv_values (cache_entry c l) @ (vs @ [v])" by simp
  then show ?case by blast
qed



lemma generate_loop_trace:
  assumes "generate_loop P n c t acc = Inr (out, c')"
  shows "\<exists>new cs. out = acc @ new \<and> length new \<le> n \<and> EOS \<notin> set new
       \<and> length cs = length new + 1 \<and> cs ! 0 = c
       \<and> (\<forall>i<length new. transformerStep P (cs ! i) ((t # new) ! i) = Inr (new ! i, cs ! Suc i))
       \<and> (if length new = n then c' = cs ! n
            else transformerStep P (cs ! length new) ((t # new) ! length new) = Inr (EOS, c'))"
  using assms
proof (induction n arbitrary: c t acc)
  case 0
  then have "out = acc @ [] \<and> length ([]::int list) \<le> 0 \<and> EOS \<notin> set []
       \<and> length [c] = length ([]::int list) + 1 \<and> [c] ! 0 = c
       \<and> (\<forall>i<length ([]::int list). transformerStep P ([c] ! i) ((t # []) ! i) = Inr ([] ! i, [c] ! Suc i))
       \<and> (if length ([]::int list) = 0 then c' = [c] ! 0
            else transformerStep P ([c] ! length ([]::int list)) ((t # []) ! length ([]::int list)) = Inr (EOS, c'))"
    by simp
  then show ?case by blast
next
  case (Suc n)
  from Suc.prems obtain tok c1 where st: "transformerStep P c t = Inr (tok, c1)"
    by (auto split: sum.splits)
  show ?case
  proof (cases "tok = EOS")
    case True
    with Suc.prems st have oc: "out = acc" "c' = c1" by simp_all
    have "out = acc @ [] \<and> length ([]::int list) \<le> Suc n \<and> EOS \<notin> set []
       \<and> length [c] = length ([]::int list) + 1 \<and> [c] ! 0 = c
       \<and> (\<forall>i<length ([]::int list). transformerStep P ([c] ! i) ((t # []) ! i) = Inr ([] ! i, [c] ! Suc i))
       \<and> (if length ([]::int list) = Suc n then c' = [c] ! Suc n
            else transformerStep P ([c] ! length ([]::int list)) ((t # []) ! length ([]::int list)) = Inr (EOS, c'))"
      using oc st True by simp
    then show ?thesis by blast
  next
    case False
    with Suc.prems st have "generate_loop P n c1 tok (acc @ [tok]) = Inr (out, c')" by simp
    from Suc.IH [OF this] obtain new cs where ih:
      "out = (acc @ [tok]) @ new" "length new \<le> n" "EOS \<notin> set new"
      "length cs = length new + 1" "cs ! 0 = c1"
      "\<forall>i<length new. transformerStep P (cs ! i) ((tok # new) ! i) = Inr (new ! i, cs ! Suc i)"
      "if length new = n then c' = cs ! n
       else transformerStep P (cs ! length new) ((tok # new) ! length new) = Inr (EOS, c')"
      by blast
    let ?new = "tok # new" and ?cs = "c # cs"
    have steps: "\<forall>i<length ?new. transformerStep P (?cs ! i) ((t # ?new) ! i) = Inr (?new ! i, ?cs ! Suc i)"
    proof (intro allI impI)
      fix i assume i: "i < length ?new"
      show "transformerStep P (?cs ! i) ((t # ?new) ! i) = Inr (?new ! i, ?cs ! Suc i)"
      proof (cases i)
        case 0
        then show ?thesis using st ih(5) by simp
      next
        case (Suc j)
        then show ?thesis using ih(6) i by simp
      qed
    qed
    have last: "if length ?new = Suc n then c' = ?cs ! Suc n
       else transformerStep P (?cs ! length ?new) ((t # ?new) ! length ?new) = Inr (EOS, c')"
      using ih(7) by simp
    have "out = acc @ ?new \<and> length ?new \<le> Suc n \<and> EOS \<notin> set ?new
       \<and> length ?cs = length ?new + 1 \<and> ?cs ! 0 = c"
      using ih(1-4) False by simp
    with steps last show ?thesis by blast
  qed
qed


section \<open>Loops as whole-vector operations\<close>

lemma foldl_upt_map:
  "foldl (\<lambda>acc k. acc + f k) z [0..<n] = foldl (\<lambda>a b. a + b) z (map f [0..<n])"
  by (simp add: foldl_map)

lemma map2_nth_upt:
  assumes "n = min (length u) (length v)"
  shows "map (\<lambda>i. f (u ! i) (v ! i)) [0..<n] = map2 f u v"
  using assms by (simp add: list_eq_iff_nth_eq)

lemma score_dot:
  assumes "length kvk \<le> length q"
  shows "score q kvk = dot kvk q"
proof -
  have "map (\<lambda>i. read_at kvk i * read_at q i) [0..<length kvk]
      = map (\<lambda>i. kvk ! i * q ! i) [0..<length kvk]"
    using assms by (simp add: read_at_def)
  also have "\<dots> = map2 (\<lambda>a b. a * b) kvk q"
    using assms by (intro map2_nth_upt) simp
  finally show ?thesis
    by (simp add: score_def dot_def sum_left_def foldl_upt_map)
qed

lemma matMul_cell_dot:
  assumes "length B \<le> length a" "\<forall>r \<in> set B. j < length r"
  shows "matMul_cell a B j = dot a (column B j)"
proof -
  have "map (\<lambda>k. read_at a k * read_at (B ! k) j) [0..<length B]
      = map (\<lambda>k. a ! k * column B j ! k) [0..<length B]"
    using assms by (simp add: read_at_def column_def)
  also have "\<dots> = map2 (\<lambda>a b. a * b) a (column B j)"
    using assms(1) by (intro map2_nth_upt) (simp add: column_def)
  finally show ?thesis
    by (simp add: matMul_cell_def dot_def sum_left_def foldl_upt_map)
qed

lemma attend_loop:
  "foldl (\<lambda>attn i. map (\<lambda>j. attn ! j + g i j) [0..<d]) (replicate d 0) [0..<n]
   = map (\<lambda>j. foldl (\<lambda>acc i. acc + g i j) 0 [0..<n]) [0..<d]"
proof (induction n)
  case 0
  then show ?case by (simp add: map_replicate_const)
next
  case (Suc n)
  then show ?case by simp
qed

lemma attend_weighted_sum:
  assumes "length V \<le> length p" and "\<forall>r \<in> set V. d_model \<le> length r"
  shows "attend V p = weighted_sum p V"
proof -
  have "foldl (\<lambda>acc i. acc + read_at (V ! i) j * read_at p i) 0 [0..<length V]
        = dot (column V j) p" if j: "j < d_model" for j
  proof -
    have r: "j < length (V ! i)" if "i < length V" for i
      using assms(2) j that by (meson nth_mem order_less_le_trans)
    have "map (\<lambda>i. read_at (V ! i) j * read_at p i) [0..<length V]
        = map (\<lambda>i. column V j ! i * p ! i) [0..<length V]"
      using assms(1) r by (simp add: read_at_def column_def)
    also have "\<dots> = map2 (\<lambda>a b. a * b) (column V j) p"
      using assms(1) by (intro map2_nth_upt) (simp add: column_def)
    finally show ?thesis
      by (simp add: dot_def sum_left_def foldl_upt_map)
  qed
  then show ?thesis
    by (simp add: attend_def attend_loop weighted_sum_def)
qed

lemma hd_rows: "M \<noteq> [] \<Longrightarrow> \<forall>r \<in> set M. length r = c \<Longrightarrow> length (hd M) = c"
  by (cases M) simp_all

lemma row_times_row_product:
  assumes M: "M \<noteq> []" and x: "length M \<le> length x"
    and rows: "\<forall>r \<in> set M. length r = n"
  shows "row_times (Some x) M = Inr (row_product x M)" and "length (row_product x M) = n"
proof -
  from M obtain b0 M' where b: "M = b0 # M'" by (cases M) auto
  have n: "length b0 = n" "length (hd M) = n" using rows b by simp_all
  have "matMul_cell x M j = dot x (column M j)" if "j < n" for j
    using x rows that by (intro matMul_cell_dot) simp_all
  then have "map (matMul_cell x M) [0..<n] = row_product x M"
    by (simp add: row_product_def n)
  then show "row_times (Some x) M = Inr (row_product x M)"
    using b n by (simp add: row_times_def matMul_def)
  show "length (row_product x M) = n" by (simp add: row_product_def n)
qed

section \<open>\<open>Math.max\<close> and \<open>indexOf\<close>\<close>

lemma less_num_iff:
  "less_num a b \<longleftrightarrow> rank a < rank b \<or> (rank a = rank b \<and> num_value a < num_value b)"
  by (cases a; cases b) (simp_all add: less_num_def)

lemma max_num_NaN [simp]: "max_num NaN x = NaN" "max_num h NaN = NaN"
  by (simp_all add: max_num_def)

lemma foldl_max_num_NaN: "h = NaN \<or> NaN \<in> set z \<Longrightarrow> foldl max_num h z = NaN"
proof (induction z arbitrary: h)
  case Nil
  then show ?case by simp
next
  case (Cons a z)
  show ?case
  proof (cases "h = NaN \<or> a = NaN")
    case True
    then have "max_num h a = NaN" by auto
    with Cons.IH [of "max_num h a"] show ?thesis by simp
  next
    case False
    with Cons.prems have "NaN \<in> set z" by auto
    with Cons.IH [of "max_num h a"] show ?thesis by simp
  qed
qed

lemma math_max_NaN: "NaN \<in> set z \<Longrightarrow> math_max z = NaN"
  by (simp add: math_max_def foldl_max_num_NaN)

lemma strict_eq_NaN [simp]: "strict_eq x NaN = False" "strict_eq NaN x = False"
  by (simp_all add: strict_eq_def)

lemma indexOf_from_NaN: "indexOf_from xs NaN i = - 1"
  by (induction xs arbitrary: i) simp_all

lemma max_num_props:
  assumes "h \<noteq> NaN" "x \<noteq> NaN"
  shows "max_num h x \<noteq> NaN" "\<not> less_num (max_num h x) h" "\<not> less_num (max_num h x) x"
    "strict_eq (max_num h x) h \<or> strict_eq (max_num h x) x"
  using assms by (auto simp: max_num_def less_num_iff strict_eq_def)

lemma not_less_trans:
  "\<not> less_num m a \<Longrightarrow> \<not> less_num a b \<Longrightarrow> \<not> less_num m b"
  by (auto simp: less_num_iff)

lemma strict_eq_not_less:
  "strict_eq a m \<Longrightarrow> less_num a b = less_num m b"
  "strict_eq a m \<Longrightarrow> less_num b a = less_num b m"
  by (auto simp: less_num_iff strict_eq_def)

lemma strict_eq_trans: "strict_eq a b \<Longrightarrow> strict_eq b c \<Longrightarrow> strict_eq a c"
  by (auto simp: strict_eq_def)

lemma strict_eq_sym: "strict_eq a b \<Longrightarrow> strict_eq b a"
  by (auto simp: strict_eq_def)

lemma not_less_antisym:
  "a \<noteq> NaN \<Longrightarrow> b \<noteq> NaN \<Longrightarrow> \<not> less_num a b \<Longrightarrow> \<not> less_num b a \<Longrightarrow> strict_eq a b"
  by (auto simp: less_num_iff strict_eq_def)

lemma foldl_max_num_props:
  assumes "h \<noteq> NaN" "NaN \<notin> set z"
  shows "foldl max_num h z \<noteq> NaN \<and> \<not> less_num (foldl max_num h z) h
       \<and> (\<forall>a \<in> set z. \<not> less_num (foldl max_num h z) a)
       \<and> (strict_eq (foldl max_num h z) h \<or> (\<exists>a \<in> set z. strict_eq a (foldl max_num h z)))"
  using assms
proof (induction z arbitrary: h)
  case Nil
  then show ?case by (simp add: less_num_iff strict_eq_def)
next
  case (Cons x z)
  have x: "x \<noteq> NaN" and z: "NaN \<notin> set z" using Cons.prems(2) by auto
  note p = max_num_props [OF Cons.prems(1) x]
  let ?h = "max_num h x" and ?m = "foldl max_num (max_num h x) z"
  from Cons.IH [OF p(1) z] have ih: "?m \<noteq> NaN" "\<not> less_num ?m ?h"
    "\<forall>a \<in> set z. \<not> less_num ?m a"
    "strict_eq ?m ?h \<or> (\<exists>a \<in> set z. strict_eq a ?m)" by auto
  have a: "\<not> less_num ?m h" using ih(2) p(2) by (rule not_less_trans)
  have b: "\<not> less_num ?m x" using ih(2) p(3) by (rule not_less_trans)
  have c: "strict_eq ?m h \<or> (\<exists>a \<in> set (x # z). strict_eq a ?m)"
  proof (cases "strict_eq ?m ?h")
    case True
    from p(4) show ?thesis
    proof
      assume "strict_eq ?h h"
      with True show ?thesis by (blast intro: strict_eq_trans)
    next
      assume "strict_eq ?h x"
      with True have "strict_eq x ?m" by (blast intro: strict_eq_trans strict_eq_sym)
      then show ?thesis by simp
    qed
  next
    case False
    with ih(4) show ?thesis by auto
  qed
  from ih(1) a b ih(3) c show ?case by simp
qed

lemma math_max_props:
  assumes "NaN \<notin> set z" "z \<noteq> []"
  shows "math_max z \<noteq> NaN" "\<forall>a \<in> set z. \<not> less_num (math_max z) a"
    "\<exists>a \<in> set z. strict_eq a (math_max z)"
proof -
  note p = foldl_max_num_props [of NegInf z, OF _ assms(1), folded math_max_def, simplified]
  show "math_max z \<noteq> NaN" "\<forall>a \<in> set z. \<not> less_num (math_max z) a" using p by auto
  from assms(2) obtain a where a: "a \<in> set z" by (cases z) auto
  show "\<exists>a \<in> set z. strict_eq a (math_max z)"
  proof (cases "strict_eq (math_max z) NegInf")
    case True
    have "a \<noteq> NaN" using a assms(1) by auto
    moreover have "\<not> less_num (math_max z) a" using p a by auto
    ultimately have "strict_eq a (math_max z)"
      using True by (cases a) (auto simp: less_num_iff strict_eq_def)
    with a show ?thesis by blast
  next
    case False
    with p show ?thesis by auto
  qed
qed

lemma find_map_comp: "find Q (map f xs) = map_option f (find (\<lambda>x. Q (f x)) xs)"
  by (induction xs) simp_all

lemma find_upt_Suc:
  "find Q [0..<Suc n] = (if Q 0 then Some 0 else map_option Suc (find (\<lambda>i. Q (Suc i)) [0..<n]))"
proof -
  have "[0..<Suc n] = 0 # map Suc [0..<n]"
    by (simp add: upt_conv_Cons map_Suc_upt del: upt_Suc)
  then show ?thesis
    by (simp add: find_map_comp del: upt_Suc)
qed

lemma indexOf_from_find:
  "indexOf_from z m i0
   = (case find (\<lambda>i. strict_eq (z ! i) m) [0..<length z] of
        Some i \<Rightarrow> i0 + int i | None \<Rightarrow> - 1)"
proof (induction z arbitrary: i0)
  case Nil
  then show ?case by simp
next
  case (Cons x z)
  show ?case
  proof (cases "strict_eq x m")
    case True
    then show ?thesis by (simp add: find_upt_Suc del: upt_Suc)
  next
    case False
    then show ?thesis
      by (simp add: find_upt_Suc Cons.IH option.case_eq_if option.map_sel del: upt_Suc)
  qed
qed

lemma is_max_at_iff:
  assumes "NaN \<notin> set z" "z \<noteq> []"
  shows "is_max_at z i \<longleftrightarrow> i < length z \<and> strict_eq (z ! i) (math_max z)"
proof -
  note p = math_max_props [OF assms]
  show ?thesis
  proof
    assume m: "is_max_at z i"
    then have i: "i < length z" and top: "\<forall>a \<in> set z. \<not> less_num (z ! i) a"
      by (simp_all add: is_max_at_def list_all_iff)
    from p(3) obtain a0 where a0: "a0 \<in> set z" "strict_eq a0 (math_max z)" by blast
    have zi: "z ! i \<in> set z" using i by simp
    then have n: "z ! i \<noteq> NaN" using assms(1) by auto
    have "\<not> less_num (z ! i) (math_max z)"
      using top a0 strict_eq_not_less(2) [OF a0(2)] by auto
    moreover have "\<not> less_num (math_max z) (z ! i)" using p(2) zi by blast
    ultimately have "strict_eq (z ! i) (math_max z)"
      using n p(1) by (intro not_less_antisym)
    with i show "i < length z \<and> strict_eq (z ! i) (math_max z)" by simp
  next
    assume a: "i < length z \<and> strict_eq (z ! i) (math_max z)"
    then have "\<forall>b \<in> set z. \<not> less_num (z ! i) b"
      using p(2) strict_eq_not_less(1) [of "z ! i" "math_max z"] by auto
    moreover have "\<forall>b \<in> set z. b \<noteq> NaN" using assms(1) by auto
    ultimately show "is_max_at z i" using a by (simp add: is_max_at_def list_all_iff)
  qed
qed

lemma is_max_at_NaN: "NaN \<in> set z \<Longrightarrow> \<not> is_max_at z i"
  by (auto simp: is_max_at_def list_all_iff)

lemma first_argmax_None: "first_argmax z = None \<longleftrightarrow> NaN \<in> set z \<or> z = []"
proof (cases "NaN \<in> set z \<or> z = []")
  case True
  then show ?thesis
    by (auto simp: first_argmax_def find_None_iff is_max_at_NaN)
next
  case False
  then have z: "NaN \<notin> set z" "z \<noteq> []" by auto
  from math_max_props(3) [OF z] obtain n where "n < length z" "strict_eq (z ! n) (math_max z)"
    by (auto simp: in_set_conv_nth)
  then have "is_max_at z n" "n \<in> set [0..<length z]"
    using is_max_at_iff [OF z] by simp_all
  then have "first_argmax z \<noteq> None"
    unfolding first_argmax_def find_None_iff by blast
  with False show ?thesis by simp
qed

lemma first_argmax_Some:
  "first_argmax z = Some i \<longleftrightarrow> is_max_at z i \<and> (\<forall>j<i. \<not> is_max_at z j)"
proof
  assume "first_argmax z = Some i"
  then obtain k where k: "k < length z" "is_max_at z ([0..<length z] ! k)" "i = [0..<length z] ! k"
    "\<forall>j<k. \<not> is_max_at z ([0..<length z] ! j)"
    unfolding first_argmax_def find_Some_iff by auto
  then show "is_max_at z i \<and> (\<forall>j<i. \<not> is_max_at z j)" by auto
next
  assume a: "is_max_at z i \<and> (\<forall>j<i. \<not> is_max_at z j)"
  then have "i < length z" by (simp add: is_max_at_def)
  with a show "first_argmax z = Some i"
    unfolding first_argmax_def find_Some_iff by (intro exI [where x = i]) auto
qed

lemma argmax_index_NaN: "NaN \<in> set z \<Longrightarrow> argmax_index z = - 1"
  by (simp add: argmax_index_def math_max_NaN indexOf_from_NaN)

lemma argmax_index_first: "argmax_index z = index_or_minus_one (first_argmax z)"
proof (cases "NaN \<in> set z \<or> z = []")
  case True
  then have "first_argmax z = None" by (simp add: first_argmax_None)
  moreover have "argmax_index z = - 1"
    using True by (auto simp: argmax_index_NaN) (simp add: argmax_index_def)
  ultimately show ?thesis by (simp add: index_or_minus_one_def)
next
  case False
  then have z: "NaN \<notin> set z" "z \<noteq> []" by auto
  have "find (\<lambda>i. strict_eq (z ! i) (math_max z)) [0..<length z] = find (is_max_at z) [0..<length z]"
    by (rule find_cong) (simp_all add: is_max_at_iff [OF z])
  then show ?thesis
    by (simp add: argmax_index_def indexOf_from_find first_argmax_def index_or_minus_one_def
        split: option.split)
qed

lemma argmax_index_range: "- 1 \<le> argmax_index z \<and> argmax_index z < int (length z)"
proof (cases "first_argmax z")
  case None
  then show ?thesis by (simp add: argmax_index_first index_or_minus_one_def)
next
  case (Some i)
  then have "i < length z" by (simp add: first_argmax_Some is_max_at_def)
  with Some show ?thesis by (simp add: argmax_index_first index_or_minus_one_def)
qed

section \<open>The decoder step computes the reference definition\<close>

lemma length_softmax [simp]: "length (softmax v) = length v"
  by (simp add: softmax_def Let_def)

lemma length_weighted_sum [simp]: "length (weighted_sum p V) = d_model"
  by (simp add: weighted_sum_def)

lemma is_matrix_rows:
  assumes "is_matrix r c M"
  shows "length M = r" "\<forall>row \<in> set M. length row = c"
  using assms by (simp_all add: is_matrix_def is_vec_def list_all_iff)

lemma d_model_pos: "0 < d_model"
  by (simp add: d_model_def)

lemma row_times_d_model:
  assumes "is_matrix d_model c M" "length x = d_model"
  shows "row_times (Some x) M = Inr (row_product x M)" "length (row_product x M) = c"
proof -
  note m = is_matrix_rows [OF assms(1)]
  have ne: "M \<noteq> []" using m(1) d_model_pos by auto
  show "row_times (Some x) M = Inr (row_product x M)"
    using ne m assms(2) by (intro row_times_row_product [where n = c]) simp_all
  show "length (row_product x M) = c"
    using ne m assms(2) by (intro row_times_row_product [where n = c]) simp_all
qed

lemma wf_params_layer:
  assumes "wf_params P" "l < n_layers"
  shows "is_matrix d_model d_model (Wq P ! l)" "is_matrix d_model d_model (Wk P ! l)"
    "is_matrix d_model d_model (Wv P ! l)" "is_matrix d_model d_model (Wo P ! l)"
    "layer_matrix (Wq P) l = Wq P ! l" "layer_matrix (Wk P) l = Wk P ! l"
    "layer_matrix (Wv P) l = Wv P ! l" "layer_matrix (Wo P) l = Wo P ! l"
  using assms by (simp_all add: wf_params_def list_all_length layer_matrix_def)

lemma layer_refines:
  assumes P: "wf_params P" and l: "l < n_layers" and kv: "wf_entry kv"
    and x: "length x = d_model"
  shows "layer P l kv (Some x) = Inr (ref_layer P l kv x)"
    and "wf_entry (snd (ref_layer P l kv x))"
    and "length (fst (ref_layer P l kv x)) = d_model"
proof -
  note m = wf_params_layer [OF P l]
  define q where "q = row_product x (Wq P ! l)"
  define k where "k = row_product x (Wk P ! l)"
  define v where "v = row_product x (Wv P ! l)"
  define K where "K = kv_keys kv @ [k]"
  define V where "V = kv_values kv @ [v]"
  define probs where "probs = softmax (map (\<lambda>key. dot key q) K)"
  define attn where "attn = weighted_sum probs V"
  have q: "row_times (Some x) (layer_matrix (Wq P) l) = Inr q" "length q = d_model"
    using row_times_d_model [OF m(1) x] by (simp_all add: m(5) q_def)
  have k: "row_times (Some x) (layer_matrix (Wk P) l) = Inr k" "length k = d_model"
    using row_times_d_model [OF m(2) x] by (simp_all add: m(6) k_def)
  have v: "row_times (Some x) (layer_matrix (Wv P) l) = Inr v" "length v = d_model"
    using row_times_d_model [OF m(3) x] by (simp_all add: m(7) v_def)
  have kvl: "length (kv_keys kv) = length (kv_values kv)"
      "\<forall>r \<in> set (kv_keys kv). length r = d_model"
      "\<forall>r \<in> set (kv_values kv). length r = d_model"
    using kv by (simp_all add: wf_entry_def list_all_iff is_vec_def)
  have Kd: "\<forall>r \<in> set K. length r = d_model" using kvl(2) k(2) by (auto simp: K_def)
  have Vd: "\<forall>r \<in> set V. length r = d_model" using kvl(3) v(2) by (auto simp: V_def)
  have sc: "map (score q) K = map (\<lambda>key. dot key q) K"
    using Kd q(2) by (intro map_cong refl score_dot) simp
  have "length V \<le> length probs" using kvl(1) by (simp add: probs_def K_def V_def)
  moreover have "\<forall>r \<in> set V. d_model \<le> length r" using Vd by simp
  ultimately have at: "attend V probs = attn"
    unfolding attn_def by (rule attend_weighted_sum)
  have "length attn = d_model" by (simp add: attn_def)
  from row_times_d_model [OF m(4) this]
  have o: "row_times (Some attn) (layer_matrix (Wo P) l) = Inr (row_product attn (Wo P ! l))"
      "length (row_product attn (Wo P ! l)) = d_model"
    by (simp_all add: m(8))
  have r: "ref_layer P l kv x = (row_product attn (Wo P ! l), \<lparr>kv_keys = K, kv_values = V\<rparr>)"
    by (simp add: ref_layer_def Let_def attn_def probs_def K_def V_def q_def k_def v_def)
  have "layer P l kv (Some x)
      = (case row_times (Some (attend V (softmax (map (score q) K)))) (layer_matrix (Wo P) l) of
           Inl e \<Rightarrow> Inl e
         | Inr x' \<Rightarrow> Inr (x', \<lparr>kv_keys = K, kv_values = V\<rparr>))"
    unfolding K_def V_def by (simp add: layer_def q(1) k(1) v(1) Let_def)
  also have "\<dots> = Inr (row_product attn (Wo P ! l), \<lparr>kv_keys = K, kv_values = V\<rparr>)"
    by (simp only: sc probs_def [symmetric] at o(1) sum.case)
  finally have "layer P l kv (Some x)
      = Inr (row_product attn (Wo P ! l), \<lparr>kv_keys = K, kv_values = V\<rparr>)" .
  then show "layer P l kv (Some x) = Inr (ref_layer P l kv x)" by (simp only: r)
  show "wf_entry (snd (ref_layer P l kv x))"
    using Kd Vd kvl(1) by (simp add: r wf_entry_def list_all_iff is_vec_def K_def V_def)
  show "length (fst (ref_layer P l kv x)) = d_model"
    using o(2) by (simp add: r)
qed

lemma layers_refines:
  assumes P: "wf_params P" and n: "l + n \<le> n_layers"
    and c: "\<forall>m. l \<le> m \<and> m < l + n \<longrightarrow> wf_entry (cache_entry c m)"
    and x: "length x = d_model"
  shows "layers P n l c (Some x)
          = Inr (Some (fst (ref_layers P [l..<l + n] c x)), snd (ref_layers P [l..<l + n] c x))
       \<and> (\<forall>m. l \<le> m \<and> m < l + n \<longrightarrow>
            wf_entry (cache_entry (snd (ref_layers P [l..<l + n] c x)) m))
       \<and> length (fst (ref_layers P [l..<l + n] c x)) = d_model"
  using n c x
proof (induction n arbitrary: l c x)
  case 0
  then show ?case by simp
next
  case (Suc n)
  have l: "l < n_layers" using Suc.prems(1) by simp
  have e: "wf_entry (cache_entry c l)" using Suc.prems(2) by simp
  note lr = layer_refines [OF P l e Suc.prems(3)]
  let ?r = "ref_layer P l (cache_entry c l) x"
  let ?c1 = "c(l \<mapsto> snd ?r)"
  have c1: "\<forall>m. Suc l \<le> m \<and> m < Suc l + n \<longrightarrow> wf_entry (cache_entry ?c1 m)"
    using Suc.prems(2) by (simp add: cache_entry_def)
  have n1: "Suc l + n \<le> n_layers" using Suc.prems(1) by simp
  let ?rest = "ref_layers P [Suc l..<Suc l + n] ?c1 (fst ?r)"
  note ih = Suc.IH [OF n1 c1 lr(3)]
  note ih1 = ih [THEN conjunct1] and ih2 = ih [THEN conjunct2, THEN conjunct1]
    and ih3 = ih [THEN conjunct2, THEN conjunct2]
  have u: "[l..<l + Suc n] = l # [Suc l..<Suc l + n]"
    using upt_conv_Cons [of l "l + Suc n"] by simp
  have unfold: "ref_layers P [l..<l + Suc n] c x = ?rest"
    by (simp only: u ref_layers.simps Let_def case_prod_beta)
  have untouched: "snd ?rest l = ?c1 l"
  proof -
    from layers_appends [OF ih1, THEN conjunct2]
    have "l < Suc l \<or> Suc l + n \<le> l \<longrightarrow> snd ?rest l = ?c1 l" by (rule spec)
    then show ?thesis by blast
  qed
  have here: "wf_entry (cache_entry (snd ?rest) l)"
    using untouched lr(2) by (simp add: cache_entry_def)
  have wf': "\<forall>m. l \<le> m \<and> m < l + Suc n \<longrightarrow> wf_entry (cache_entry (snd ?rest) m)"
  proof (intro allI impI)
    fix m assume m: "l \<le> m \<and> m < l + Suc n"
    show "wf_entry (cache_entry (snd ?rest) m)"
    proof (cases "m = l")
      case True
      then show ?thesis using here by simp
    next
      case False
      then have "Suc l \<le> m \<and> m < Suc l + n" using m by simp
      then show ?thesis using ih2 by blast
    qed
  qed
  have "layers P (Suc n) l c (Some x) = layers P n (Suc l) ?c1 (Some (fst ?r))"
    by (simp only: layers.simps lr(1) sum.case case_prod_beta)
  then have run: "layers P (Suc n) l c (Some x) = Inr (Some (fst ?rest), snd ?rest)"
    by (simp only: ih1)
  note len = ih3
  show ?case unfolding unfold by (rule conjI [OF run conjI [OF wf' len]])
qed

lemma wf_cache_iff: "wf_cache c = (\<forall>l<n_layers. wf_entry (cache_entry c l))"
  by (auto simp: wf_cache_def list_all_iff)

lemma transformerStep_refines:
  assumes P: "wf_params P" and c: "wf_cache c" and t: "0 \<le> t" "t < int vocab_size"
  shows "layers P n_layers 0 c (embedding_row (W_embed P) t)
          = Inr (Some (fst (ref_layers P [0..<n_layers] c (W_embed P ! nat t))), ref_cache P c (nat t))"
    and "row_times (Some (fst (ref_layers P [0..<n_layers] c (W_embed P ! nat t)))) (W_out P)
          = Inr (ref_logits P c (nat t))"
    and "length (ref_logits P c (nat t)) = vocab_size"
    and "transformerStep P c t = Inr (argmax_index (ref_logits P c (nat t)), ref_cache P c (nat t))"
    and "wf_cache (ref_cache P c (nat t))"
proof -
  have tn: "nat t < vocab_size" using t by simp
  have E: "is_matrix vocab_size d_model (W_embed P)" and O: "is_matrix d_model vocab_size (W_out P)"
    using P by (simp_all add: wf_params_def)
  have x: "length (W_embed P ! nat t) = d_model"
    using is_matrix_rows [OF E] tn by simp
  have emb: "embedding_row (W_embed P) t = Some (W_embed P ! nat t)"
    using is_matrix_rows(1) [OF E] tn t by (simp add: embedding_row_def)
  let ?L = "ref_layers P [0..<n_layers] c (W_embed P ! nat t)"
  have w: "\<forall>m. 0 \<le> m \<and> m < 0 + n_layers \<longrightarrow> wf_entry (cache_entry c m)"
    using c by (simp add: wf_cache_iff)
  have n: "0 + n_layers \<le> n_layers" by simp
  from layers_refines [OF P n w x]
  have L: "layers P n_layers 0 c (Some (W_embed P ! nat t)) = Inr (Some (fst ?L), snd ?L)"
    "\<forall>m. 0 \<le> m \<and> m < n_layers \<longrightarrow> wf_entry (cache_entry (snd ?L) m)"
    "length (fst ?L) = d_model"
    by simp_all
  show g1: "layers P n_layers 0 c (embedding_row (W_embed P) t)
          = Inr (Some (fst ?L), ref_cache P c (nat t))"
    using L(1) by (simp add: emb ref_cache_def)
  from row_times_d_model [OF O L(3)]
  show g2: "row_times (Some (fst ?L)) (W_out P) = Inr (ref_logits P c (nat t))"
    and g3: "length (ref_logits P c (nat t)) = vocab_size"
    by (simp_all add: ref_logits_def)
  show "transformerStep P c t = Inr (argmax_index (ref_logits P c (nat t)), ref_cache P c (nat t))"
    using g1 g2 by (simp add: transformerStep_def)
  show "wf_cache (ref_cache P c (nat t))"
    using L(2) by (simp add: wf_cache_iff ref_cache_def)
qed

section \<open>Evaluation on constant vectors\<close>

lemma iter_add_0 [simp]: "iter_add 0 t = Num 0"
  by (simp add: iter_add_def zero_jsnum_def)

lemma iter_add_Suc [simp]: "iter_add (Suc n) t = iter_add n t + t"
  by (simp add: iter_add_def)

lemma iter_add_zero [simp]: "iter_add n (Num 0) = Num 0"
  by (induction n) simp_all

lemma iter_add_NaN: "0 < n \<Longrightarrow> iter_add n NaN = NaN"
  by (cases n) simp_all

lemma fl_pow2: "- 1074 \<le> e \<Longrightarrow> e < 1024 \<Longrightarrow> fl neg (2 powi e) = Num (2 powi e)"
proof -
  assume e: "- 1074 \<le> e" "e < 1024"
  have "(2::real) powi e < 2 powi 1024"
    using e(2) by (intro power_int_strict_increasing) simp_all
  then show ?thesis
    using e(1) by (intro fl_exact [of _ 1 e]) simp_all
qed

lemma Num_plus_Num: "x + y \<noteq> 0 \<Longrightarrow> Num x + Num y = fl (x + y < 0) (x + y)"
  by (simp add: plus_jsnum_def)

lemma Num_times_Num: "Num x * Num y = fl ((x < 0) \<noteq> (y < 0)) (x * y)"
  by (simp add: times_jsnum_def)

lemma iter_add_exact:
  assumes "- 1074 \<le> e" "n < 2 ^ 53" "real n * 2 powi e < 2 ^ 1024"
  shows "iter_add n (Num (2 powi e)) = Num (real n * 2 powi e)"
  using assms(2,3)
proof (induction n)
  case 0
  then show ?case by simp
next
  case (Suc n)
  define t :: real where "t = 2 powi e"
  define B :: real where "B = 2 ^ 1024"
  have t: "0 < t" by (simp add: t_def)
  have le: "real n * t \<le> real n * t + t" using t by simp
  have s: "real (Suc n) * t = real n * t + t"
    by (simp add: distrib_right)
  have "real (Suc n) * t < B"
    using Suc.prems(2) unfolding t_def B_def .
  then have b: "real n * t + t < B"
    unfolding s .
  have "real n * 2 powi e < 2 ^ 1024"
    using le b unfolding t_def B_def by (rule le_less_trans)
  moreover have "n < 2 ^ 53"
    using Suc.prems(1) by (rule Suc_lessD)
  ultimately have ih: "iter_add n (Num (2 powi e)) = Num (real n * t)"
    unfolding t_def by (rule Suc.IH [rotated])
  have n0: "0 \<le> real n * t" using t by simp
  have pos: "0 < real n * t + t" using t n0 by linarith
  have m: "int (Suc n) < int (2 ^ 53)"
    using Suc.prems(1) by (simp only: of_nat_less_iff)
  have "fl False (real n * t + t) = Num (real n * t + t)"
  proof (rule fl_exact [of _ "int (Suc n)" e])
    have "real n * t + t = real (Suc n) * t" by (simp only: s)
    then show "real n * t + t = real_of_int (int (Suc n)) * 2 powi e"
      unfolding t_def by (simp only: of_int_of_nat_eq)
    show "\<bar>int (Suc n)\<bar> < 2 ^ 53" using m by simp
    show "- 1074 \<le> e" by (rule assms(1))
    show "\<bar>real n * t + t\<bar> < 2 ^ 1024" using b pos unfolding B_def by linarith
    show "real n * t + t \<noteq> 0" using pos by simp
  qed
  moreover have "Num (real n * t) + Num t = fl (real n * t + t < 0) (real n * t + t)"
    using pos by (intro Num_plus_Num) simp
  moreover have "(real n * t + t < 0) = False" using pos by simp
  ultimately have "Num (real n * t) + Num t = Num (real (Suc n) * t)"
    by (simp only: s)
  then show ?case
    unfolding iter_add_Suc ih unfolding t_def .
qed

lemma foldl_const_fun:
  assumes "\<And>k. k < n \<Longrightarrow> f k = t"
  shows "foldl (\<lambda>acc k. acc + f k) 0 [0..<n] = iter_add n t"
  unfolding iter_add_def using assms by (intro foldl_cong) simp_all

lemma const_cell:
  "j < length r \<Longrightarrow> matMul_cell (replicate K a) (replicate K r) j = iter_add K (a * r ! j)"
  unfolding matMul_cell_def length_replicate
  by (rule foldl_const_fun) (simp add: read_at_def)

lemma const_row_times:
  assumes "0 < K"
  shows "row_times (Some (replicate K a)) (replicate K r) = Inr (map (\<lambda>b. iter_add K (a * b)) r)"
proof -
  from assms obtain K' where K: "K = Suc K'" by (cases K) auto
  have m: "map (matMul_cell (replicate K a) (replicate K r)) [0..<length r]
      = map (\<lambda>b. iter_add K (a * b)) r"
    by (rule nth_equalityI) (simp_all add: const_cell)
  have "matMul [replicate K a] (replicate K r)
      = Inr [map (matMul_cell (replicate K a) (replicate K r)) [0..<length r]]"
    by (simp add: matMul_def K)
  then show ?thesis
    by (simp add: row_times_def m)
qed

lemma const_score: "score (replicate d q) (replicate d k) = iter_add d (k * q)"
  unfolding score_def length_replicate
  by (rule foldl_const_fun) (simp add: read_at_def)

lemma const_attend:
  "attend (map (replicate d_model) as) probs
   = replicate d_model (foldl (\<lambda>acc i. acc + as ! i * read_at probs i) 0 [0..<length as])"
proof -
  have e: "foldl (\<lambda>acc i. acc + read_at (map (replicate d_model) as ! i) j * read_at probs i) 0
          [0..<length as]
      = foldl (\<lambda>acc i. acc + as ! i * read_at probs i) 0 [0..<length as]"
    if "j < d_model" for j
    using that by (intro foldl_cong) (simp_all add: read_at_def)
  have "attend (map (replicate d_model) as) probs
      = map (\<lambda>j. foldl (\<lambda>acc i. acc + read_at (map (replicate d_model) as ! i) j * read_at probs i) 0
          [0..<length as]) [0..<d_model]"
    unfolding attend_def by (simp only: attend_loop length_map)
  also have "\<dots> = replicate d_model (foldl (\<lambda>acc i. acc + as ! i * read_at probs i) 0 [0..<length as])"
    by (rule nth_equalityI) (simp_all add: e)
  finally show ?thesis .
qed


lemma const_layer:
  assumes W: "layer_matrix (Wq P) l = const_matrix d_model d_model wq"
      "layer_matrix (Wk P) l = const_matrix d_model d_model wk"
      "layer_matrix (Wv P) l = const_matrix d_model d_model wv"
      "layer_matrix (Wo P) l = const_matrix d_model d_model wo"
    and kv: "kv_keys kv = map const_vec ks" "kv_values kv = map const_vec vs"
    and q: "q = iter_add d_model (a * wq)"
    and k: "k = iter_add d_model (a * wk)"
    and v: "v = iter_add d_model (a * wv)"
    and probs: "probs = softmax (map (\<lambda>key. iter_add d_model (key * q)) (ks @ [k]))"
    and t: "t = foldl (\<lambda>acc i. acc + (vs @ [v]) ! i * read_at probs i) 0 [0..<length (vs @ [v])]"
  shows "layer P l kv (Some (const_vec a))
         = Inr (const_vec (iter_add d_model (t * wo)),
                \<lparr>kv_keys = map const_vec (ks @ [k]), kv_values = map const_vec (vs @ [v])\<rparr>)"
proof -
  have rt: "row_times (Some (const_vec b)) (const_matrix d_model d_model w)
      = Inr (const_vec (iter_add d_model (b * w)))" for b w
    unfolding const_vec_def const_matrix_def
    by (simp add: const_row_times [OF d_model_pos])
  have sc: "map (score (const_vec q)) (map const_vec (ks @ [k]))
      = map (\<lambda>key. iter_add d_model (key * q)) (ks @ [k])"
    unfolding const_vec_def by (simp add: const_score)
  have at: "attend (map const_vec (vs @ [v])) probs = const_vec t"
    unfolding const_vec_def t by (rule const_attend)
  have K: "kv_keys kv @ [const_vec k] = map const_vec (ks @ [k])"
    and V: "kv_values kv @ [const_vec v] = map const_vec (vs @ [v])"
    by (simp_all add: kv)
  have "layer P l kv (Some (const_vec a))
      = (case row_times (Some (attend (kv_values kv @ [const_vec v])
                (softmax (map (score (const_vec q)) (kv_keys kv @ [const_vec k])))))
              (const_matrix d_model d_model wo) of
           Inl e \<Rightarrow> Inl e
         | Inr x' \<Rightarrow> Inr (x', \<lparr>kv_keys = kv_keys kv @ [const_vec k],
                                 kv_values = kv_values kv @ [const_vec v]\<rparr>))"
    by (simp add: layer_def W rt q [symmetric] k [symmetric] v [symmetric] Let_def del: map_append)
  also have "\<dots> = Inr (const_vec (iter_add d_model (t * wo)),
                \<lparr>kv_keys = map const_vec (ks @ [k]), kv_values = map const_vec (vs @ [v])\<rparr>)"
    unfolding K V sc probs [symmetric] at rt by simp
  finally show ?thesis .
qed

lemma embedding_const:
  "0 \<le> t \<Longrightarrow> t < int r \<Longrightarrow> embedding_row (const_matrix r d_model a) t = Some (const_vec a)"
  by (simp add: embedding_row_def const_matrix_def const_vec_def)

lemma layer_matrix_const:
  "l < n \<Longrightarrow> layer_matrix (replicate n M) l = M"
  by (simp add: layer_matrix_def)

lemma Num_minus_self [simp]: "Num a - Num a = Num 0"
  by (simp add: minus_jsnum_def plus_jsnum_def signed_zero_def)

lemma softmax_single: "softmax [Num a] = [Num 1]"
  by (simp add: softmax_def math_max_def max_num_def less_num_def zero_jsnum_def)

lemma softmax_NaN: "softmax [NaN] = [NaN]"
  by (simp add: softmax_def math_max_def max_num_def zero_jsnum_def divide_num_def)

lemma two_layers:
  assumes "layer P 0 (cache_entry c 0) x = Inr (x1, e0)"
    and "layer P 1 (cache_entry c 1) (Some x1) = Inr (x2, e1)"
  shows "layers P n_layers 0 c x = Inr (Some x2, c(0 \<mapsto> e0, 1 \<mapsto> e1))"
proof -
  have "cache_entry (c(0 \<mapsto> e0)) 1 = cache_entry c 1"
    by (simp add: cache_entry_def)
  then show ?thesis
    using assms by (simp add: n_layers_def numeral_2_eq_2)
qed

lemma cache_entry_empty [simp]: "cache_entry empty_cache l = empty_entry"
  by (simp add: cache_entry_def empty_cache_def)

lemma cache_entry_upd [simp]: "cache_entry (c(l \<mapsto> e)) l' = (if l' = l then e else cache_entry c l')"
  by (simp add: cache_entry_def)

lemma zero_params_layer_matrix [simp]:
  "l < n_layers \<Longrightarrow> layer_matrix (Wq zero_params) l = const_matrix d_model d_model (Num 0)"
  "l < n_layers \<Longrightarrow> layer_matrix (Wk zero_params) l = const_matrix d_model d_model (Num 0)"
  "l < n_layers \<Longrightarrow> layer_matrix (Wv zero_params) l = const_matrix d_model d_model (Num 0)"
  "l < n_layers \<Longrightarrow> layer_matrix (Wo zero_params) l = const_matrix d_model d_model (Num 0)"
  by (simp_all add: zero_params_def layer_matrix_const)

lemma empty_entry_const:
  "kv_keys empty_entry = map const_vec []" "kv_values empty_entry = map const_vec []"
  by (simp_all add: empty_entry_def)

lemma zero_layer_empty:
  assumes "l < n_layers"
  shows "layer zero_params l empty_entry (Some (const_vec (Num 0)))
         = Inr (const_vec (Num 0), one_entry (Num 0) (Num 0))"
  using const_layer [OF zero_params_layer_matrix [OF assms] empty_entry_const refl refl refl refl refl,
      of "Num 0"]
  by (simp add: softmax_single read_at_def one_entry_def zero_jsnum_def)

lemma logits_const:
  "row_times (Some (const_vec a)) (replicate d_model r) = Inr (map (\<lambda>b. iter_add d_model (a * b)) r)"
  unfolding const_vec_def by (rule const_row_times [OF d_model_pos])

lemma foldl_max_replicate: "foldl max_num (Num a) (replicate n (Num a)) = Num a"
  by (induction n) (simp_all add: max_num_def less_num_def)

lemma math_max_replicate: "0 < n \<Longrightarrow> math_max (replicate n (Num a)) = Num a"
  by (cases n) (simp_all add: math_max_def foldl_max_replicate max_num_def less_num_def)

lemma argmax_index_replicate:
  assumes "0 < n"
  shows "argmax_index (replicate n (Num a)) = 0"
proof -
  from assms obtain m where n: "n = Suc m" by (cases n) auto
  show ?thesis
    unfolding argmax_index_def math_max_replicate [OF assms]
    by (simp add: n strict_eq_def)
qed

lemma math_max_replicate_snoc:
  assumes "a < b"
  shows "math_max (replicate n (Num a) @ [Num b]) = Num b"
proof (cases n)
  case 0
  then show ?thesis by (simp add: math_max_def max_num_def less_num_def)
next
  case (Suc m)
  have "foldl max_num NegInf (replicate n (Num a)) = Num a"
    using math_max_replicate [of n a] Suc by (simp add: math_max_def)
  then show ?thesis
    using assms by (simp add: math_max_def max_num_def less_num_def)
qed

lemma indexOf_from_replicate_snoc:
  "a \<noteq> b \<Longrightarrow> indexOf_from (replicate n (Num a) @ [Num b]) (Num b) i = i + int n"
  by (induction n arbitrary: i) (simp_all add: strict_eq_def)

lemma argmax_index_replicate_snoc:
  "a < b \<Longrightarrow> argmax_index (replicate n (Num a) @ [Num b]) = int n"
  by (simp add: argmax_index_def math_max_replicate_snoc indexOf_from_replicate_snoc)

lemma step_zero_empty:
  assumes "0 \<le> t" "t < int vocab_size"
  shows "transformerStep zero_params empty_cache t = Inr (0, one_step_cache)"
proof -
  have e: "embedding_row (W_embed zero_params) t = Some (const_vec (Num 0))"
    using assms by (simp add: zero_params_def embedding_const)
  have l: "layers zero_params n_layers 0 empty_cache (Some (const_vec (Num 0)))
      = Inr (Some (const_vec (Num 0)), one_step_cache)"
    unfolding one_step_cache_def
  proof (rule two_layers)
    show "layer zero_params 0 (cache_entry empty_cache 0) (Some (const_vec (Num 0)))
        = Inr (const_vec (Num 0), one_entry (Num 0) (Num 0))"
      unfolding cache_entry_empty by (rule zero_layer_empty) (simp add: n_layers_def)
    show "layer zero_params 1 (cache_entry empty_cache 1) (Some (const_vec (Num 0)))
        = Inr (const_vec (Num 0), one_entry (Num 0) (Num 0))"
      unfolding cache_entry_empty by (rule zero_layer_empty) (simp add: n_layers_def)
  qed
  have o: "row_times (Some (const_vec (Num 0))) (W_out zero_params) = Inr (replicate vocab_size (Num 0))"
    by (simp add: zero_params_def const_matrix_def logits_const map_replicate_const)
  show ?thesis
    by (simp add: transformerStep_def e l o argmax_index_replicate vocab_size_def)
qed

lemma Num_times_exact:
  assumes "x * y = of_int m * 2 powi e" "\<bar>m\<bar> < 2 ^ 53" "- 1074 \<le> e" "\<bar>x * y\<bar> < 2 ^ 1024" "x * y \<noteq> 0"
  shows "Num x * Num y = Num (x * y)"
  unfolding Num_times_Num by (rule fl_exact [OF assms])

lemma Num_plus_exact:
  assumes "x + y = of_int m * 2 powi e" "\<bar>m\<bar> < 2 ^ 53" "- 1074 \<le> e" "\<bar>x + y\<bar> < 2 ^ 1024" "x + y \<noteq> 0"
  shows "Num x + Num y = Num (x + y)"
  unfolding Num_plus_Num [OF assms(5)] by (rule fl_exact [OF assms])

lemma Num_times_zero [simp]: "0 \<le> x \<Longrightarrow> Num x * Num 0 = Num 0" "0 \<le> x \<Longrightarrow> Num 0 * Num x = Num 0"
  by (simp_all add: Num_times_Num signed_zero_def)

lemma prod_32_32: "Num (1 / 32) * Num (1 / 32) = Num (1 / 1024)"
  using Num_times_exact [of "1 / 32" "1 / 32" 1 "- 10"] by simp

lemma prod_32_2: "Num (1 / 32) * Num (1 / 2) = Num (1 / 64)"
  using Num_times_exact [of "1 / 32" "1 / 2" 1 "- 6"] by simp

lemma prod_64_32: "Num (1 / 64) * Num (1 / 32) = Num (1 / 2048)"
  using Num_times_exact [of "1 / 64" "1 / 32" 1 "- 11"] by simp

lemma prod_64_2: "Num (1 / 64) * Num (1 / 2) = Num (1 / 128)"
  using Num_times_exact [of "1 / 64" "1 / 2" 1 "- 7"] by simp

lemma prod_128_32: "Num (1 / 128) * Num (1 / 32) = Num (1 / 4096)"
  using Num_times_exact [of "1 / 128" "1 / 32" 1 "- 12"] by simp

lemma prod_128_16: "Num (1 / 128) * Num (1 / 16) = Num (1 / 2048)"
  using Num_times_exact [of "1 / 128" "1 / 16" 1 "- 11"] by simp

lemma prod_16_16: "Num (1 / 16) * Num (1 / 16) = Num (1 / 256)"
  using Num_times_exact [of "1 / 16" "1 / 16" 1 "- 8"] by simp

lemma plus_0_64: "Num 0 + Num (1 / 64) = Num (1 / 64)"
  using Num_plus_exact [of 0 "1 / 64" 1 "- 6"] by simp

lemma plus_0_128: "Num 0 + Num (1 / 128) = Num (1 / 128)"
  using Num_plus_exact [of 0 "1 / 128" 1 "- 7"] by simp

lemma plus_1_1: "Num 1 + Num 1 = Num 2"
  using Num_plus_exact [of 1 1 1 1] by simp

lemma div_1_2: "divide_num (Num 1) (Num 2) = Num (1 / 2)"
proof -
  have "fl False (1 / 2) = Num (1 / 2)"
    by (rule fl_exact [of _ 1 "- 1"]) simp_all
  then show ?thesis by (simp add: divide_num_def)
qed

lemma sum_1024: "iter_add d_model (Num (1 / 1024)) = Num (1 / 32)"
  using iter_add_exact [of "- 10" 32] by (simp add: d_model_def)

lemma sum_2048: "iter_add d_model (Num (1 / 2048)) = Num (1 / 64)"
  using iter_add_exact [of "- 11" 32] by (simp add: d_model_def)

lemma sum_4096: "iter_add d_model (Num (1 / 4096)) = Num (1 / 128)"
  using iter_add_exact [of "- 12" 32] by (simp add: d_model_def)

lemma sum_256: "iter_add d_model (Num (1 / 256)) = Num (1 / 8)"
  using iter_add_exact [of "- 8" 32] by (simp add: d_model_def)

lemma softmax_pair: "softmax [Num 0, Num 0] = [Num (1 / 2), Num (1 / 2)]"
  by (simp add: softmax_def math_max_def max_num_def less_num_def zero_jsnum_def plus_1_1 div_1_2)

lemma prod_big: "Num huge * Num (1 / 8) = Num (huge / 8)"
proof -
  have "huge * (1 / 8) = 1 * 2 powi 1020" by (simp add: huge_def)
  then have "Num huge * Num (1 / 8) = Num (huge * (1 / 8))"
    by (intro Num_times_exact [of _ _ 1 1020]) (simp_all add: huge_def)
  then show ?thesis by simp
qed

lemma iter_add_PosInf: "iter_add n (Num r) = PosInf \<Longrightarrow> iter_add (n + m) (Num r) = PosInf"
  by (induction m) simp_all

lemma sum_overflow: "iter_add d_model (Num (huge / 8)) = PosInf"
proof -
  have h: "huge / 8 = 2 powi 1020" by (simp add: huge_def)
  have a: "iter_add 15 (Num (2 powi 1020)) = Num (15 * 2 powi 1020)"
    using iter_add_exact [of 1020 15] by simp
  have "iter_add 16 (Num (2 powi 1020)) = iter_add (Suc 15) (Num (2 powi 1020))"
    by simp
  also have "\<dots> = Num (15 * 2 powi 1020) + Num (2 powi 1020)"
    unfolding iter_add_Suc a ..
  also have "\<dots> = fl False (15 * 2 powi 1020 + 2 powi 1020)"
    by (subst Num_plus_Num) simp_all
  also have "\<dots> = PosInf"
    by (rule fl_overflow) simp
  finally have "iter_add (16 + 16) (Num (2 powi 1020)) = PosInf"
    by (rule iter_add_PosInf)
  then show ?thesis unfolding h by (simp add: d_model_def)
qed

section \<open>A run of two steps\<close>

lemma demo_params_layer_matrix:
  assumes "l < n_layers"
  shows "layer_matrix (Wq demo_params) l = const_matrix d_model d_model (Num 0)"
  "layer_matrix (Wk demo_params) l = const_matrix d_model d_model (Num (1 / 32))"
  "layer_matrix (Wv demo_params) l = const_matrix d_model d_model (Num (1 / 32))"
  "layer_matrix (Wo demo_params) l = const_matrix d_model d_model (Num (1 / 32))"
  using assms by (simp_all add: demo_params_def layer_matrix_const)

lemma demo_layer_empty:
  assumes "l < n_layers"
  shows "layer demo_params l empty_entry (Some (const_vec (Num 0)))
         = Inr (const_vec (Num 0), one_entry (Num 0) (Num 0))"
  using const_layer [OF demo_params_layer_matrix [OF assms] empty_entry_const refl refl refl refl refl,
      of "Num 0"]
  by (simp add: softmax_single read_at_def one_entry_def zero_jsnum_def)

lemma one_entry_const:
  "kv_keys (one_entry k v) = map const_vec [k]" "kv_values (one_entry k v) = map const_vec [v]"
  by (simp_all add: one_entry_def)

lemma demo_layer0:
  "layer demo_params 0 (one_entry (Num 0) (Num 0)) (Some (const_vec (Num (1 / 32))))
   = Inr (const_vec (Num (1 / 64)),
          \<lparr>kv_keys = [const_vec (Num 0), const_vec (Num (1 / 32))],
           kv_values = [const_vec (Num 0), const_vec (Num (1 / 32))]\<rparr>)"
proof -
  have l: "(0::nat) < n_layers" by (simp add: n_layers_def)
  show ?thesis
    using const_layer [OF demo_params_layer_matrix [OF l] one_entry_const [of "Num 0" "Num 0"]
        refl refl refl refl refl, of "Num (1 / 32)"]
    by (simp add: prod_32_32 sum_1024 softmax_pair read_at_def zero_jsnum_def numeral_2_eq_2
        prod_32_2 plus_0_64 prod_64_32 sum_2048)
qed

lemma demo_layer1:
  "layer demo_params 1 (one_entry (Num 0) (Num 0)) (Some (const_vec (Num (1 / 64))))
   = Inr (const_vec (Num (1 / 128)),
          \<lparr>kv_keys = [const_vec (Num 0), const_vec (Num (1 / 64))],
           kv_values = [const_vec (Num 0), const_vec (Num (1 / 64))]\<rparr>)"
proof -
  have l: "(1::nat) < n_layers" by (simp add: n_layers_def)
  show ?thesis
    using const_layer [OF demo_params_layer_matrix [OF l] one_entry_const [of "Num 0" "Num 0"]
        refl refl refl refl refl, of "Num (1 / 64)"]
    by (simp add: prod_64_32 sum_2048 softmax_pair read_at_def zero_jsnum_def numeral_2_eq_2
        prod_64_2 plus_0_128 prod_128_32 sum_4096)
qed

lemma step_demo_first:
  assumes "0 < t" "t < int vocab_size"
  shows "transformerStep demo_params empty_cache t = Inr (0, one_step_cache)"
proof -
  from assms obtain m where m: "nat t = Suc m" "m < vocab_size - 1"
    by (cases "nat t") auto
  have e: "embedding_row (W_embed demo_params) t = Some (const_vec (Num 0))"
    using assms m by (simp add: demo_params_def embedding_row_def const_matrix_def const_vec_def)
  have l: "layers demo_params n_layers 0 empty_cache (Some (const_vec (Num 0)))
      = Inr (Some (const_vec (Num 0)), one_step_cache)"
    unfolding one_step_cache_def
  proof (rule two_layers)
    show "layer demo_params 0 (cache_entry empty_cache 0) (Some (const_vec (Num 0)))
        = Inr (const_vec (Num 0), one_entry (Num 0) (Num 0))"
      unfolding cache_entry_empty by (rule demo_layer_empty) (simp add: n_layers_def)
    show "layer demo_params 1 (cache_entry empty_cache 1) (Some (const_vec (Num 0)))
        = Inr (const_vec (Num 0), one_entry (Num 0) (Num 0))"
      unfolding cache_entry_empty by (rule demo_layer_empty) (simp add: n_layers_def)
  qed
  have o: "row_times (Some (const_vec (Num 0))) (W_out demo_params)
      = Inr (Num 0 # replicate 99 (Num 0))"
    by (simp add: demo_params_def logits_const map_replicate_const vocab_size_def
        replicate_append_same)
  have "argmax_index (replicate (Suc 99) (Num 0)) = 0"
    by (rule argmax_index_replicate) simp
  then have "argmax_index (Num 0 # replicate 99 (Num 0)) = 0"
    by (simp only: replicate_Suc)
  then show ?thesis
    by (simp add: transformerStep_def e l o)
qed

lemma step_demo_second:
  "transformerStep demo_params one_step_cache 0 = Inr (EOS, demo_cache)"
proof -
  have e: "embedding_row (W_embed demo_params) 0 = Some (const_vec (Num (1 / 32)))"
    by (simp add: demo_params_def embedding_row_def)
  have l: "layers demo_params n_layers 0 one_step_cache (Some (const_vec (Num (1 / 32))))
      = Inr (Some (const_vec (Num (1 / 128))), demo_cache)"
  proof -
    have "layers demo_params n_layers 0 one_step_cache (Some (const_vec (Num (1 / 32))))
      = Inr (Some (const_vec (Num (1 / 128))),
          one_step_cache
           (0 \<mapsto> \<lparr>kv_keys = [const_vec (Num 0), const_vec (Num (1 / 32))],
                  kv_values = [const_vec (Num 0), const_vec (Num (1 / 32))]\<rparr>,
            1 \<mapsto> \<lparr>kv_keys = [const_vec (Num 0), const_vec (Num (1 / 64))],
                  kv_values = [const_vec (Num 0), const_vec (Num (1 / 64))]\<rparr>))"
    proof (rule two_layers)
      have "cache_entry one_step_cache 0 = one_entry (Num 0) (Num 0)"
        by (simp add: one_step_cache_def)
      then show "layer demo_params 0 (cache_entry one_step_cache 0) (Some (const_vec (Num (1 / 32))))
        = Inr (const_vec (Num (1 / 64)),
          \<lparr>kv_keys = [const_vec (Num 0), const_vec (Num (1 / 32))],
           kv_values = [const_vec (Num 0), const_vec (Num (1 / 32))]\<rparr>)"
        by (simp only: demo_layer0)
      have "cache_entry one_step_cache 1 = one_entry (Num 0) (Num 0)"
        by (simp add: one_step_cache_def)
      then show "layer demo_params 1 (cache_entry one_step_cache 1) (Some (const_vec (Num (1 / 64))))
        = Inr (const_vec (Num (1 / 128)),
          \<lparr>kv_keys = [const_vec (Num 0), const_vec (Num (1 / 64))],
           kv_values = [const_vec (Num 0), const_vec (Num (1 / 64))]\<rparr>)"
        by (simp only: demo_layer1)
    qed
    then show ?thesis
      by (simp add: demo_cache_def one_step_cache_def)
  qed
  have o: "row_times (Some (const_vec (Num (1 / 128)))) (W_out demo_params)
      = Inr (replicate 99 (Num (1 / 128)) @ [Num (1 / 64)])"
    by (simp add: demo_params_def logits_const map_replicate_const prod_128_32 sum_4096
        prod_128_16 sum_2048 vocab_size_def)
  have "argmax_index (replicate 99 (Num (1 / 128)) @ [Num (1 / 64)]) = 99"
    using argmax_index_replicate_snoc [of "1 / 128" "1 / 64" 99] by simp
  then show ?thesis
    by (simp add: transformerStep_def e l o EOS_def)
qed

lemma generate_demo: "generateBotResponse demo_params empty_cache [5] = Inr ([0], demo_cache)"
proof -
  have a: "transformerStep demo_params empty_cache 5 = Inr (0, one_step_cache)"
    by (rule step_demo_first) (simp_all add: vocab_size_def)
  have m: "maxTokens = Suc (Suc 98)" by (simp add: maxTokens_def)
  have "generate_loop demo_params (Suc 98) one_step_cache 0 [0] = Inr ([0], demo_cache)"
    by (simp only: generate_loop.simps step_demo_second sum.case prod.case simp_thms if_True)
  moreover have "generate_loop demo_params (Suc (Suc 98)) empty_cache 5 []
      = generate_loop demo_params (Suc 98) one_step_cache 0 ([] @ [0])"
    unfolding generate_loop.simps(2) [of _ "Suc 98"] a by (simp add: EOS_def)
  ultimately have "generate_loop demo_params (Suc (Suc 98)) empty_cache 5 [] = Inr ([0], demo_cache)"
    by simp
  then show ?thesis
    unfolding generateBotResponse_def m by (simp add: first_token_def)
qed

section \<open>Steps whose logits are NaN\<close>

lemma NaN_layer_empty:
  assumes W: "layer_matrix (Wq P) l = const_matrix d_model d_model (Num wq)"
      "layer_matrix (Wk P) l = const_matrix d_model d_model (Num wk)"
      "layer_matrix (Wv P) l = const_matrix d_model d_model (Num wv)"
      "layer_matrix (Wo P) l = const_matrix d_model d_model (Num wo)"
  shows "layer P l empty_entry (Some (const_vec NaN)) = Inr (const_vec NaN, one_entry NaN NaN)"
  using const_layer [OF W empty_entry_const refl refl refl refl refl, of NaN]
  by (simp add: softmax_NaN read_at_def one_entry_def iter_add_NaN [OF d_model_pos])

lemma NaN_logits:
  "row_times (Some (const_vec NaN)) (const_matrix d_model vocab_size (Num w))
   = Inr (replicate vocab_size NaN)"
  by (simp add: const_matrix_def logits_const map_replicate_const iter_add_NaN [OF d_model_pos])

lemma argmax_index_NaNs: "argmax_index (replicate vocab_size NaN) = - 1"
  by (rule argmax_index_NaN) (simp add: vocab_size_def)

lemma malformed_layer0:
  "layer zero_params 0 (cache_entry malformed_cache 0) (Some (const_vec (Num 0)))
   = Inr (const_vec NaN,
          \<lparr>kv_keys = [const_vec (Num 0)], kv_values = [const_vec (Num 0), const_vec (Num 0)]\<rparr>)"
proof -
  have l: "(0::nat) < n_layers" by (simp add: n_layers_def)
  have kv: "kv_keys (cache_entry malformed_cache 0) = map const_vec []"
    "kv_values (cache_entry malformed_cache 0) = map const_vec [Num 0]"
    by (simp_all add: malformed_cache_def)
  show ?thesis
    using const_layer [OF zero_params_layer_matrix [OF l] kv refl refl refl refl refl, of "Num 0"]
    by (simp add: softmax_single read_at_def zero_jsnum_def numeral_2_eq_2
        iter_add_NaN [OF d_model_pos])
qed

lemma step_malformed:
  assumes "0 \<le> t" "t < int vocab_size"
  shows "transformerStep zero_params malformed_cache t = Inr (- 1, malformed_after)"
proof -
  have e: "embedding_row (W_embed zero_params) t = Some (const_vec (Num 0))"
    using assms by (simp add: zero_params_def embedding_const)
  have l1: "(1::nat) < n_layers" by (simp add: n_layers_def)
  have l: "layers zero_params n_layers 0 malformed_cache (Some (const_vec (Num 0)))
      = Inr (Some (const_vec NaN), malformed_after)"
    unfolding malformed_after_def
  proof (rule two_layers)
    show "layer zero_params 0 (cache_entry malformed_cache 0) (Some (const_vec (Num 0)))
   = Inr (const_vec NaN,
          \<lparr>kv_keys = [const_vec (Num 0)], kv_values = [const_vec (Num 0), const_vec (Num 0)]\<rparr>)"
      by (rule malformed_layer0)
    have "cache_entry malformed_cache 1 = empty_entry"
      by (simp add: malformed_cache_def)
    then show "layer zero_params 1 (cache_entry malformed_cache 1) (Some (const_vec NaN))
        = Inr (const_vec NaN, one_entry NaN NaN)"
      by (simp only:) (rule NaN_layer_empty [OF zero_params_layer_matrix [OF l1]])
  qed
  have o: "row_times (Some (const_vec NaN)) (W_out zero_params) = Inr (replicate vocab_size NaN)"
    by (simp add: zero_params_def NaN_logits)
  show ?thesis
    by (simp add: transformerStep_def e l o argmax_index_NaNs)
qed

lemma overflow_params_layer_matrix:
  assumes "l < n_layers"
  shows "layer_matrix (Wq overflow_params) l = const_matrix d_model d_model (Num (1 / 16))"
  "layer_matrix (Wk overflow_params) l = const_matrix d_model d_model (Num 0)"
  "layer_matrix (Wv overflow_params) l = const_matrix d_model d_model (Num 0)"
  "layer_matrix (Wo overflow_params) l = const_matrix d_model d_model (Num 0)"
  using assms by (simp_all add: overflow_params_def layer_matrix_const)

lemma prod_16_0: "Num (1 / 16) * Num 0 = Num 0"
  by (simp add: Num_times_Num signed_zero_def)

lemma prod_0_8: "Num 0 * Num (1 / 8) = Num 0"
  by (simp add: Num_times_Num signed_zero_def)

lemma softmax_overflow: "softmax [PosInf, Num 0] = [NaN, NaN]"
  by (simp add: softmax_def math_max_def max_num_def less_num_def zero_jsnum_def
      minus_jsnum_def plus_jsnum_def divide_num_def)

lemma overflow_layer0:
  "layer overflow_params 0 (cache_entry overflow_cache 0) (Some (const_vec (Num (1 / 16))))
   = Inr (const_vec NaN,
          \<lparr>kv_keys = [const_vec (Num huge), const_vec (Num 0)],
           kv_values = [const_vec (Num 0), const_vec (Num 0)]\<rparr>)"
proof -
  have l: "(0::nat) < n_layers" by (simp add: n_layers_def)
  have kv: "kv_keys (cache_entry overflow_cache 0) = map const_vec [Num huge]"
    "kv_values (cache_entry overflow_cache 0) = map const_vec [Num 0]"
    by (simp_all add: overflow_cache_def one_entry_def)
  show ?thesis
    using const_layer [OF overflow_params_layer_matrix [OF l] kv refl refl refl refl refl,
        of "Num (1 / 16)"]
    by (simp add: prod_16_16 sum_256 prod_16_0 prod_big sum_overflow prod_0_8 softmax_overflow
        read_at_def zero_jsnum_def numeral_2_eq_2 iter_add_NaN [OF d_model_pos])
qed

lemma step_overflow:
  assumes "0 \<le> t" "t < int vocab_size"
  shows "transformerStep overflow_params overflow_cache t = Inr (- 1, overflow_after)"
proof -
  have e: "embedding_row (W_embed overflow_params) t = Some (const_vec (Num (1 / 16)))"
    using assms by (simp add: overflow_params_def embedding_const)
  have l1: "(1::nat) < n_layers" by (simp add: n_layers_def)
  have l: "layers overflow_params n_layers 0 overflow_cache (Some (const_vec (Num (1 / 16))))
      = Inr (Some (const_vec NaN), overflow_after)"
    unfolding overflow_after_def
  proof (rule two_layers)
    show "layer overflow_params 0 (cache_entry overflow_cache 0) (Some (const_vec (Num (1 / 16))))
   = Inr (const_vec NaN,
          \<lparr>kv_keys = [const_vec (Num huge), const_vec (Num 0)],
           kv_values = [const_vec (Num 0), const_vec (Num 0)]\<rparr>)"
      by (rule overflow_layer0)
    have "cache_entry overflow_cache 1 = empty_entry"
      by (simp add: overflow_cache_def)
    then show "layer overflow_params 1 (cache_entry overflow_cache 1) (Some (const_vec NaN))
        = Inr (const_vec NaN, one_entry NaN NaN)"
      by (simp only:) (rule NaN_layer_empty [OF overflow_params_layer_matrix [OF l1]])
  qed
  have o: "row_times (Some (const_vec NaN)) (W_out overflow_params) = Inr (replicate vocab_size NaN)"
    by (simp add: overflow_params_def NaN_logits)
  show ?thesis
    by (simp add: transformerStep_def e l o argmax_index_NaNs)
qed

lemma step_minus_one:
  assumes "wf_params P"
  shows "transformerStep P c (- 1) = Inl TypeError"
proof -
  have "is_matrix d_model d_model (layer_matrix (Wq P) 0)"
    using assms by (simp add: wf_params_def layer_matrix_def list_all_length n_layers_def)
  then obtain b B where B: "layer_matrix (Wq P) 0 = b # B" "b \<noteq> []"
    by (cases "layer_matrix (Wq P) 0") (fastforce simp: is_matrix_def is_vec_def d_model_def)+
  then have "layer P 0 (cache_entry c 0) None = Inl TypeError"
    by (simp add: layer_def row_times_def)
  then show ?thesis
    by (simp add: transformerStep_def embedding_row_def n_layers_def numeral_2_eq_2)
qed

section \<open>Shapes of the concrete inputs\<close>

lemma is_matrix_const: "is_matrix r c (const_matrix r c a)"
  by (simp add: is_matrix_def const_matrix_def is_vec_def list_all_iff)

lemma list_all_replicate: "P x \<Longrightarrow> list_all P (replicate n x)"
  by (simp add: list_all_iff)

lemma wf_zero_params: "wf_params zero_params"
  by (simp add: wf_params_def zero_params_def is_matrix_const list_all_replicate)

lemma wf_demo_params: "wf_params demo_params"
  by (simp add: wf_params_def demo_params_def is_matrix_const list_all_replicate)
    (simp add: is_matrix_def const_matrix_def const_vec_def is_vec_def list_all_iff vocab_size_def)

lemma wf_overflow_params: "wf_params overflow_params"
  by (simp add: wf_params_def overflow_params_def is_matrix_const list_all_replicate)

lemma wf_empty_cache: "wf_cache empty_cache"
  by (simp add: wf_cache_iff wf_entry_def empty_entry_def)

lemma wf_one_entry: "wf_entry (one_entry k v)"
  by (simp add: wf_entry_def one_entry_def is_vec_def const_vec_def)

lemma wf_empty_entry: "wf_entry empty_entry"
  by (simp add: wf_entry_def empty_entry_def)

lemma wf_one_step_cache: "wf_cache one_step_cache"
  by (simp add: wf_cache_iff one_step_cache_def wf_one_entry wf_empty_entry)

lemma wf_overflow_cache: "wf_cache overflow_cache"
  by (simp add: wf_cache_iff overflow_cache_def wf_one_entry wf_empty_entry)

lemma valid_token_5: "(0::int) \<le> 5 \<and> (5::int) < int vocab_size"
  by (simp add: vocab_size_def)

lemma valid_token_0: "(0::int) \<le> 0 \<and> (0::int) < int vocab_size"
  by (simp add: vocab_size_def)

section \<open>The generation loop on well-formed inputs\<close>

lemma transformerStep_range:
  assumes "wf_params P" "wf_cache c" "0 \<le> t" "t < int vocab_size"
  shows "\<exists>tok c'. transformerStep P c t = Inr (tok, c') \<and> wf_cache c'
       \<and> - 1 \<le> tok \<and> tok < int vocab_size"
proof -
  note r = transformerStep_refines [OF assms]
  from argmax_index_range [of "ref_logits P c (nat t)"] r(3)
  have "- 1 \<le> argmax_index (ref_logits P c (nat t))
      \<and> argmax_index (ref_logits P c (nat t)) < int vocab_size" by simp
  with r(4,5) show ?thesis by blast
qed

lemma generate_loop_tokens:
  assumes P: "wf_params P"
    and "wf_cache c" "0 \<le> t" "t < int vocab_size"
    and "generate_loop P n c t acc = Inr (out, c')"
  shows "\<exists>new. out = acc @ new
       \<and> (\<forall>i<length new. - 1 \<le> new ! i \<and> new ! i < int vocab_size
              \<and> (new ! i = - 1 \<longrightarrow> Suc i = n))"
  using assms(2-)
proof (induction n arbitrary: c t acc)
  case 0
  then show ?case by simp
next
  case (Suc n)
  from transformerStep_range [OF P Suc.prems(1-3)] obtain tok c1 where
    s: "transformerStep P c t = Inr (tok, c1)" and c1: "wf_cache c1"
    and tok: "- 1 \<le> tok" "tok < int vocab_size" by blast
  show ?case
  proof (cases "tok = EOS")
    case True
    with Suc.prems(4) s have "out = acc @ []" by simp
    then show ?thesis by (intro exI [where x = "[]"]) simp
  next
    case False
    with Suc.prems(4) s have g: "generate_loop P n c1 tok (acc @ [tok]) = Inr (out, c')"
      by simp
    show ?thesis
    proof (cases "tok = - 1")
      case True
      have n0: "n = 0"
      proof (rule ccontr)
        assume "n \<noteq> 0"
        then obtain m where "n = Suc m" by (cases n) auto
        with g True step_minus_one [OF P, of c1] show False by simp
      qed
      with g True have "out = acc @ [- 1]" by simp
      then show ?thesis
        using n0 by (intro exI [where x = "[- 1]"]) (simp add: vocab_size_def)
    next
      case f: False
      with tok have "0 \<le> tok" by simp
      from Suc.IH [OF c1 this tok(2) g] obtain new where
        new: "out = (acc @ [tok]) @ new"
          "\<forall>i<length new. - 1 \<le> new ! i \<and> new ! i < int vocab_size
              \<and> (new ! i = - 1 \<longrightarrow> Suc i = n)"
        by blast
      have "\<forall>i<length (tok # new). - 1 \<le> (tok # new) ! i \<and> (tok # new) ! i < int vocab_size
              \<and> ((tok # new) ! i = - 1 \<longrightarrow> Suc i = Suc n)"
      proof (intro allI impI)
        fix i assume i: "i < length (tok # new)"
        show "- 1 \<le> (tok # new) ! i \<and> (tok # new) ! i < int vocab_size
              \<and> ((tok # new) ! i = - 1 \<longrightarrow> Suc i = Suc n)"
        proof (cases i)
          case 0
          then show ?thesis using tok f by simp
        next
          case (Suc j)
          then show ?thesis using new(2) i by simp
        qed
      qed
      moreover have "out = acc @ (tok # new)" using new(1) by simp
      ultimately show ?thesis by blast
    qed
  qed
qed

lemma row_times_error: "row_times x B = Inl e \<Longrightarrow> e = TypeError"
  by (auto simp: row_times_def matMul_def split: option.splits list.splits if_splits)

lemma layer_error: "layer P l kv x = Inl e \<Longrightarrow> e = TypeError"
  by (auto simp: layer_def Let_def split: sum.splits dest: row_times_error)

lemma layers_error: "layers P n l c x = Inl e \<Longrightarrow> e = TypeError"
  by (induction n arbitrary: l c x) (auto split: sum.splits dest: layer_error)

lemma transformerStep_error: "transformerStep P c t = Inl e \<Longrightarrow> e = TypeError"
  by (auto simp: transformerStep_def split: sum.splits dest: layers_error row_times_error)

lemma generate_loop_error: "generate_loop P n c t acc = Inl e \<Longrightarrow> e = TypeError"
  by (induction n arbitrary: c t acc)
    (auto split: sum.splits if_splits dest: transformerStep_error)

section \<open>Properties of the tokenizer\<close>








text \<open>
  Claim C9. The tokenizer round trip is not the identity: there is a string \<open>s\<close> with
  \<open>decode (encode s) \<noteq> s\<close> (the one-character string "a", code 97, comes back as the
  character of code 162).
\<close>

theorem roundtrip_not_identity: "\<exists>s. decode (encode s) \<noteq> s"
proof
  show "decode (encode [0x61]) \<noteq> [0x61]"
    by (simp add: encode_def decode_def charCodeAt0_def fromCharCode_def
        vocab_size_def EOS_def)
qed

section \<open>Properties of \<open>matMul\<close>\<close>

lemma matMul_product:
  assumes B: "B \<noteq> []" and A: "\<forall>a \<in> set A. length a = length B"
    and rows: "\<forall>b \<in> set B. length b = n"
  shows "\<exists>C. matMul A B = Inr C \<and> length C = length A
           \<and> (\<forall>i<length A. length (C ! i) = n
                \<and> (\<forall>j<n. C ! i ! j = dot (A ! i) (column B j)))"
proof -
  from B obtain b0 B' where b: "B = b0 # B'" by (cases B) auto
  have n: "length b0 = n" using rows b by simp
  let ?C = "map (\<lambda>a. map (matMul_cell a B) [0..<n]) A"
  have m: "matMul A B = Inr ?C" using b n by (simp add: matMul_def)
  have "length (?C ! i) = n \<and> (\<forall>j<n. ?C ! i ! j = dot (A ! i) (column B j))"
    if i: "i < length A" for i
  proof -
    have l: "length B \<le> length (A ! i)" using A i by simp
    have "matMul_cell (A ! i) B j = dot (A ! i) (column B j)" if "j < n" for j
      using l rows that by (intro matMul_cell_dot) simp_all
    then show ?thesis using i by simp
  qed
  with m show ?thesis by simp
qed

lemma fl_3: "fl False 3 = Num 3"
  by (rule fl_exact [of _ 3 0]) simp_all

lemma fl_8: "fl False 8 = Num 8"
  by (rule fl_exact [of _ 8 0]) simp_all

lemma fl_11: "fl False 11 = Num 11"
  by (rule fl_exact [of _ 11 0]) simp_all

text \<open>
  Claim C5, as amended. \<open>matMul\<close> has no shape check and no ShapeMismatch condition:
  it fails, with a \<open>TypeError\<close>, exactly when \<open>B\<close> has no row, whatever the columns
  of \<open>A\<close> are. When the shapes conform (every row of \<open>A\<close> has as many entries as
  \<open>B\<close> has rows, every row of \<open>B\<close> has \<open>n\<close> entries) and \<open>B\<close> has a row, it
  returns the dense product in the arithmetic of doubles, of shape \<open>(A.rows, B.cols)\<close>:
  entry \<open>(i, j)\<close> is the dot product of row \<open>i\<close> of \<open>A\<close> with column \<open>j\<close> of \<open>B\<close>, each
  product rounded and the sum accumulated from 0 in the order of the index, rounded at
  each addition.
\<close>

theorem matMul_without_shape_check:
  "((\<exists>e. matMul A B = Inl e) \<longleftrightarrow> B = [])
   \<and> (B \<noteq> [] \<and> (\<forall>a \<in> set A. length a = length B) \<and> (\<forall>b \<in> set B. length b = n) \<longrightarrow>
        (\<exists>C. matMul A B = Inr C \<and> length C = length A
           \<and> (\<forall>i<length A. length (C ! i) = n
                \<and> (\<forall>j<n. C ! i ! j = dot (A ! i) (column B j)))))"
  using matMul_fails_iff [of A B] matMul_product [of B A n] by blast

theorem matMul_without_shape_check_witness:
  "([[Num 3], [Num 4]] \<noteq> []
     \<and> list_all (\<lambda>a. length a = length [[Num 3], [Num 4]]) [[Num 1, Num 2]]
     \<and> list_all (\<lambda>b. length b = 1) [[Num 3], [Num 4]])
   \<and> (\<exists>C. matMul [[Num 1, Num 2]] [[Num 3], [Num 4]] = Inr C \<and> length C = 1
         \<and> length (C ! 0) = 1 \<and> C ! 0 ! 0 = Num 11)"
proof -
  let ?A = "[[Num 1, Num 2]]" and ?B = "[[Num 3], [Num 4]]"
  have h: "?B \<noteq> [] \<and> (\<forall>a \<in> set ?A. length a = length ?B) \<and> (\<forall>b \<in> set ?B. length b = 1)"
    by simp
  from matMul_without_shape_check [of ?A ?B 1]
  have "?B \<noteq> [] \<and> (\<forall>a \<in> set ?A. length a = length ?B) \<and> (\<forall>b \<in> set ?B. length b = 1) \<longrightarrow>
        (\<exists>C. matMul ?A ?B = Inr C \<and> length C = length ?A
           \<and> (\<forall>i<length ?A. length (C ! i) = 1
                \<and> (\<forall>j<1. C ! i ! j = dot (?A ! i) (column ?B j))))"
    by (rule conjunct2)
  from this h have "\<exists>C. matMul ?A ?B = Inr C \<and> length C = length ?A
           \<and> (\<forall>i<length ?A. length (C ! i) = 1
                \<and> (\<forall>j<1. C ! i ! j = dot (?A ! i) (column ?B j)))"
    by (rule mp)
  then obtain C where C: "matMul ?A ?B = Inr C" "length C = length ?A"
    "\<forall>i<length ?A. length (C ! i) = 1
        \<and> (\<forall>j<1. C ! i ! j = dot (?A ! i) (column ?B j))"
    by blast
  from C(3) have "length (C ! 0) = 1 \<and> C ! 0 ! 0 = dot (?A ! 0) (column ?B 0)"
    by simp
  moreover have "dot (?A ! 0) (column ?B 0) = Num 11"
    by (simp add: dot_def column_def sum_left_def zero_jsnum_def Num_times_Num Num_plus_Num
        fl_3 fl_8 fl_11)
  ultimately show ?thesis using C(1,2) by simp
qed

theorem matMul_shape_mismatch_counterexample:
  "matMul [[Num 1, Num 2]] [[Num 3]] = Inr [[Num 3]] \<and> matMul [[]] [] = Inl TypeError"
  by (simp add: matMul_def matMul_cell_def read_at_def zero_jsnum_def Num_times_Num Num_plus_Num
      fl_3)

section \<open>Properties of \<open>getKV\<close>\<close>

lemma getKV_after_open:
  "open_outcome env = Success db \<Longrightarrow> transaction_outcome env = Success req \<Longrightarrow>
   getKV env l = Inr (case get_outcome env l of
                        Success (Some kv) \<Rightarrow> kv
                      | Success None \<Rightarrow> empty_entry
                      | Failure \<Rightarrow> empty_entry)"
  by (simp add: getKV_def openDB_def split: outcome.splits option.splits)

text \<open>
  Claim C6 at its failing input. When the open request of the database ends in its
  error handler, \<open>openDB\<close> rejects, and \<open>getKV(0)\<close>, which has no handler for it,
  rejects with the same error instead of resolving to the empty entry.
\<close>

theorem getKV_rejects_when_open_fails:
  "getKV \<lparr>open_outcome = Failure, transaction_outcome = Success (),
          get_outcome = (\<lambda>l. Success None)\<rparr> 0 = Inl DOMException"
  by (simp add: getKV_def openDB_def)

section \<open>The claims on the decoder step, the cache and the generation loop\<close>

lemma index_or_minus_one_None: "index_or_minus_one r = - 1 \<longleftrightarrow> r = None"
  by (cases r) (simp_all add: index_or_minus_one_def)

text \<open>
  Claim C1, as amended. For every input token \<open>t\<close> in \<open>[0, vocab_size - 1]\<close> and every
  well-formed cache (for each layer as many keys as values, all vectors of \<open>d_model\<close>
  numbers), the decoder step returns the token of the reference definition, in the
  arithmetic of doubles, and leaves the cache of the reference definition: \<open>x\<close> starts
  as row \<open>t\<close> of the embedding matrix; each layer, in order, takes the single-row
  products of \<open>x\<close> with its query, key and value matrices, appends the key and the
  value to its cache entry, scores every cached key (the new one included) by its dot
  product with the query, takes the softmax of the scores, sums the cached values
  weighted by these probabilities, and multiplies the sum by its output-projection
  matrix to get the next \<open>x\<close>, with nothing else in between. The token is the first
  index of a maximal entry of the logits, \<open>x\<close> times the output projection matrix,
  when no logit is \<open>NaN\<close>; when a logit is \<open>NaN\<close> there is no such index and the step
  returns -1.
\<close>

theorem transformerStep_is_reference:
  assumes "wf_params P" and "wf_cache c" and "0 \<le> t" and "t < int vocab_size"
  shows "transformerStep P c t
           = Inr (index_or_minus_one (first_argmax (ref_logits P c (nat t))), ref_cache P c (nat t))
       \<and> length (ref_logits P c (nat t)) = vocab_size
       \<and> (first_argmax (ref_logits P c (nat t)) = None \<longleftrightarrow> NaN \<in> set (ref_logits P c (nat t)))
       \<and> wf_cache (ref_cache P c (nat t))"
proof -
  note r = transformerStep_refines [OF assms]
  have "ref_logits P c (nat t) \<noteq> []"
    using r(3) by (auto simp: vocab_size_def)
  then have "first_argmax (ref_logits P c (nat t)) = None \<longleftrightarrow> NaN \<in> set (ref_logits P c (nat t))"
    by (simp add: first_argmax_None)
  with r(3,4,5) show ?thesis
    by (simp add: argmax_index_first)
qed

theorem transformerStep_is_reference_witness:
  "wf_params demo_params \<and> wf_cache one_step_cache \<and> (0::int) \<le> 0 \<and> (0::int) < int vocab_size
   \<and> transformerStep demo_params one_step_cache 0 = Inr (EOS, demo_cache)
   \<and> index_or_minus_one (first_argmax (ref_logits demo_params one_step_cache (nat 0))) = EOS
   \<and> ref_cache demo_params one_step_cache (nat 0) = demo_cache
   \<and> NaN \<notin> set (ref_logits demo_params one_step_cache (nat 0))"
proof -
  note v = valid_token_0
  note th = transformerStep_is_reference [OF wf_demo_params wf_one_step_cache
      conjunct1 [OF v] conjunct2 [OF v]]
  note e = step_demo_second
  from th [THEN conjunct1] e
  have a: "index_or_minus_one (first_argmax (ref_logits demo_params one_step_cache (nat 0))) = EOS"
    and b: "ref_cache demo_params one_step_cache (nat 0) = demo_cache"
    by simp_all
  from a have "first_argmax (ref_logits demo_params one_step_cache (nat 0)) \<noteq> None"
    using index_or_minus_one_None [of "first_argmax (ref_logits demo_params one_step_cache (nat 0))"]
    by (simp add: EOS_def)
  with th [THEN conjunct2, THEN conjunct2, THEN conjunct1]
  have n: "NaN \<notin> set (ref_logits demo_params one_step_cache (nat 0))"
    by simp
  show ?thesis
    by (rule conjI [OF wf_demo_params conjI [OF wf_one_step_cache conjI [OF conjunct1 [OF v]
          conjI [OF conjunct2 [OF v] conjI [OF e conjI [OF a conjI [OF b n]]]]]]])
qed

theorem transformerStep_overflow_counterexample:
  "wf_params overflow_params \<and> wf_cache overflow_cache
   \<and> transformerStep overflow_params overflow_cache 5 = Inr (- 1, overflow_after)
   \<and> first_argmax (ref_logits overflow_params overflow_cache 5) = None"
proof -
  note v = valid_token_5
  have e: "transformerStep overflow_params overflow_cache 5 = Inr (- 1, overflow_after)"
    using v by (intro step_overflow) simp_all
  from transformerStep_refines(4) [OF wf_overflow_params wf_overflow_cache
      conjunct1 [OF v] conjunct2 [OF v]] e
  have "argmax_index (ref_logits overflow_params overflow_cache 5) = - 1"
    by simp
  then have "first_argmax (ref_logits overflow_params overflow_cache 5) = None"
    by (simp add: argmax_index_first index_or_minus_one_None)
  with wf_overflow_params wf_overflow_cache e show ?thesis by simp
qed

text \<open>
  Claim C10, as amended. For every input token in \<open>[0, vocab_size - 1]\<close> and every
  well-formed cache the decoder step returns; the logits vector has length exactly
  \<open>vocab_size\<close>; the returned number is -1 when a logit is \<open>NaN\<close> and otherwise the
  first position of a maximal logit, an index in \<open>[0, vocab_size - 1]\<close>. Every number
  that the generation loop emits lies in \<open>[-1, vocab_size - 1]\<close>, and -1 can only be
  the token of the last, \<open>maxTokens\<close>-th iteration: on the input -1 the decoder step
  raises a \<open>TypeError\<close>.
\<close>

theorem emitted_tokens_valid:
  assumes "wf_params P" and "wf_cache c" and "0 \<le> t" and "t < int vocab_size"
  shows "(\<exists>x logits c'.
            layers P n_layers 0 c (embedding_row (W_embed P) t) = Inr (Some x, c')
          \<and> row_times (Some x) (W_out P) = Inr logits
          \<and> length logits = vocab_size
          \<and> transformerStep P c t = Inr (argmax_index logits, c')
          \<and> - 1 \<le> argmax_index logits \<and> argmax_index logits < int vocab_size
          \<and> (argmax_index logits = - 1 \<longleftrightarrow> NaN \<in> set logits)
          \<and> (NaN \<notin> set logits \<longrightarrow>
                is_max_at logits (nat (argmax_index logits))
              \<and> (\<forall>j<nat (argmax_index logits). \<not> is_max_at logits j)))
       \<and> (generateBotResponse P c (t # rest) = Inr (out, c'') \<longrightarrow>
            (\<forall>i<length out. - 1 \<le> out ! i \<and> out ! i < int vocab_size
                \<and> (out ! i = - 1 \<longrightarrow> Suc i = maxTokens)))
       \<and> transformerStep P c (- 1) = Inl TypeError"
proof (intro conjI impI)
  note r = transformerStep_refines [OF assms]
  let ?z = "ref_logits P c (nat t)"
  have ne: "?z \<noteq> []" using r(3) by (auto simp: vocab_size_def)
  have rg: "- 1 \<le> argmax_index ?z \<and> argmax_index ?z < int vocab_size"
    using argmax_index_range [of ?z] r(3) by simp
  have nan: "argmax_index ?z = - 1 \<longleftrightarrow> NaN \<in> set ?z"
    using ne by (simp add: argmax_index_first index_or_minus_one_None first_argmax_None)
  have mx: "NaN \<notin> set ?z \<longrightarrow>
      is_max_at ?z (nat (argmax_index ?z)) \<and> (\<forall>j<nat (argmax_index ?z). \<not> is_max_at ?z j)"
  proof
    assume "NaN \<notin> set ?z"
    with ne obtain i where i: "first_argmax ?z = Some i"
      using first_argmax_None [of ?z] by (cases "first_argmax ?z") auto
    then have "nat (argmax_index ?z) = i"
      by (simp add: argmax_index_first index_or_minus_one_def)
    with i show "is_max_at ?z (nat (argmax_index ?z)) \<and> (\<forall>j<nat (argmax_index ?z). \<not> is_max_at ?z j)"
      by (simp add: first_argmax_Some)
  qed
  from r(1,2,3,4) rg nan mx
  show "\<exists>x logits c'.
            layers P n_layers 0 c (embedding_row (W_embed P) t) = Inr (Some x, c')
          \<and> row_times (Some x) (W_out P) = Inr logits
          \<and> length logits = vocab_size
          \<and> transformerStep P c t = Inr (argmax_index logits, c')
          \<and> - 1 \<le> argmax_index logits \<and> argmax_index logits < int vocab_size
          \<and> (argmax_index logits = - 1 \<longleftrightarrow> NaN \<in> set logits)
          \<and> (NaN \<notin> set logits \<longrightarrow>
                is_max_at logits (nat (argmax_index logits))
              \<and> (\<forall>j<nat (argmax_index logits). \<not> is_max_at logits j))"
    by (intro exI [where x = "fst (ref_layers P [0..<n_layers] c (W_embed P ! nat t))"]
        exI [where x = ?z] exI [where x = "ref_cache P c (nat t)"]) simp
next
  assume "generateBotResponse P c (t # rest) = Inr (out, c'')"
  then have "generate_loop P maxTokens c t [] = Inr (out, c'')"
    by (simp add: generateBotResponse_def first_token_def)
  from generate_loop_tokens [OF assms this]
  show "\<forall>i<length out. - 1 \<le> out ! i \<and> out ! i < int vocab_size
                \<and> (out ! i = - 1 \<longrightarrow> Suc i = maxTokens)"
    by simp
next
  show "transformerStep P c (- 1) = Inl TypeError"
    by (rule step_minus_one [OF assms(1)])
qed

theorem emitted_tokens_valid_witness:
  "wf_params demo_params \<and> wf_cache empty_cache \<and> (0::int) \<le> 5 \<and> (5::int) < int vocab_size
   \<and> generateBotResponse demo_params empty_cache [5] = Inr ([0], demo_cache)
   \<and> (\<exists>logits. length logits = vocab_size \<and> argmax_index logits = 0 \<and> NaN \<notin> set logits
          \<and> is_max_at logits 0)
   \<and> (- 1 \<le> [0::int] ! 0 \<and> [0::int] ! 0 < int vocab_size)"
proof -
  note v = valid_token_5
  note th = emitted_tokens_valid [OF wf_demo_params wf_empty_cache conjunct1 [OF v] conjunct2 [OF v],
      of "[]" "[0]" demo_cache]
  note g = generate_demo
  have s: "transformerStep demo_params empty_cache 5 = Inr (0, one_step_cache)"
    by (rule step_demo_first) (simp_all add: vocab_size_def)
  from th [THEN conjunct1] obtain logits c' where l: "length logits = vocab_size"
    "transformerStep demo_params empty_cache 5 = Inr (argmax_index logits, c')"
    "argmax_index logits = - 1 \<longleftrightarrow> NaN \<in> set logits"
    "NaN \<notin> set logits \<longrightarrow> is_max_at logits (nat (argmax_index logits))
              \<and> (\<forall>j<nat (argmax_index logits). \<not> is_max_at logits j)"
    by blast
  from l(2) s have z: "argmax_index logits = 0" by simp
  with l(3) have n: "NaN \<notin> set logits" by simp
  with l(4) z have "is_max_at logits 0" by simp
  with l(1) z n have a: "\<exists>logits. length logits = vocab_size \<and> argmax_index logits = 0
      \<and> NaN \<notin> set logits \<and> is_max_at logits 0"
    by blast
  have "generateBotResponse demo_params empty_cache [5] = Inr ([0], demo_cache) \<longrightarrow>
            (\<forall>i<length [0::int]. - 1 \<le> [0::int] ! i \<and> [0::int] ! i < int vocab_size
                \<and> ([0::int] ! i = - 1 \<longrightarrow> Suc i = maxTokens))"
    by (rule th [THEN conjunct2, THEN conjunct1])
  from this g have "\<forall>i<length [0::int]. - 1 \<le> [0::int] ! i \<and> [0::int] ! i < int vocab_size
                \<and> ([0::int] ! i = - 1 \<longrightarrow> Suc i = maxTokens)"
    by (rule mp)
  then have b: "- 1 \<le> [0::int] ! 0 \<and> [0::int] ! 0 < int vocab_size"
    by simp
  show ?thesis
    by (rule conjI [OF wf_demo_params conjI [OF wf_empty_cache conjI [OF conjunct1 [OF v]
          conjI [OF conjunct2 [OF v] conjI [OF g conjI [OF a b]]]]]])
qed

theorem emitted_token_counterexample:
  "wf_params overflow_params \<and> wf_cache overflow_cache
   \<and> transformerStep overflow_params overflow_cache 0 = Inr (- 1, overflow_after)
   \<and> generateBotResponse overflow_params overflow_cache [0] = Inl TypeError"
proof -
  have e: "transformerStep overflow_params overflow_cache 0 = Inr (- 1, overflow_after)"
    using valid_token_0 by (intro step_overflow) simp_all
  have m: "maxTokens = Suc (Suc 98)" by (simp add: maxTokens_def)
  have "generate_loop overflow_params (Suc 98) overflow_after (- 1) [- 1] = Inl TypeError"
    unfolding generate_loop.simps step_minus_one [OF wf_overflow_params] by simp
  moreover have "generate_loop overflow_params (Suc (Suc 98)) overflow_cache 0 []
      = generate_loop overflow_params (Suc 98) overflow_after (- 1) ([] @ [- 1])"
    unfolding generate_loop.simps(2) [of _ "Suc 98"] e by (simp add: EOS_def)
  ultimately have "generateBotResponse overflow_params overflow_cache [0] = Inl TypeError"
    unfolding generateBotResponse_def m by (simp add: first_token_def)
  with wf_overflow_params wf_overflow_cache e show ?thesis by simp
qed

text \<open>
  Claim C2. The generation loop started on the first user token \<open>t0\<close> calls the decoder
  step with the current input token at each iteration, the cache going from one call
  to the next; a returned token other than \<open>EOS\<close> is appended to the output and is the
  next input token; on \<open>EOS\<close> the loop stops and \<open>EOS\<close> is not appended. It runs at
  most \<open>maxTokens\<close> iterations, so the returned sequence has at most \<open>maxTokens\<close>
  tokens, none of them \<open>EOS\<close>. On well-formed weights and cache and a valid first
  token the first call returns, and the loop ends by returning a sequence or, when a
  call fails, with the \<open>TypeError\<close> of that call.
\<close>

theorem generateBotResponse_loop:
  "(generateBotResponse P c (t0 # rest) = Inr (out, c') \<longrightarrow>
      length out \<le> maxTokens \<and> EOS \<notin> set out
      \<and> (\<exists>cs. length cs = length out + 1 \<and> cs ! 0 = c
            \<and> (\<forall>i<length out.
                  transformerStep P (cs ! i) ((t0 # out) ! i) = Inr (out ! i, cs ! Suc i))
            \<and> (if length out = maxTokens then c' = cs ! maxTokens
                 else transformerStep P (cs ! length out) ((t0 # out) ! length out)
                        = Inr (EOS, c'))))
   \<and> (wf_params P \<and> wf_cache c \<and> 0 \<le> t0 \<and> t0 < int vocab_size \<longrightarrow>
        (\<exists>tok c1. transformerStep P c t0 = Inr (tok, c1))
        \<and> ((\<exists>out c'. generateBotResponse P c (t0 # rest) = Inr (out, c'))
            \<or> generateBotResponse P c (t0 # rest) = Inl TypeError))"
proof (intro conjI impI)
  assume "generateBotResponse P c (t0 # rest) = Inr (out, c')"
  then have "generate_loop P maxTokens c t0 [] = Inr (out, c')"
    by (simp add: generateBotResponse_def first_token_def)
  from generate_loop_trace [OF this] obtain new cs where n:
    "out = [] @ new" "length new \<le> maxTokens" "EOS \<notin> set new"
    "length cs = length new + 1" "cs ! 0 = c"
    "\<forall>i<length new. transformerStep P (cs ! i) ((t0 # new) ! i) = Inr (new ! i, cs ! Suc i)"
    "if length new = maxTokens then c' = cs ! maxTokens
     else transformerStep P (cs ! length new) ((t0 # new) ! length new) = Inr (EOS, c')"
    by blast
  from n(1) have o: "new = out" by simp
  from n(2) show "length out \<le> maxTokens" unfolding o .
  from n(3) show "EOS \<notin> set out" unfolding o .
  from n(4-7) show "\<exists>cs. length cs = length out + 1 \<and> cs ! 0 = c
            \<and> (\<forall>i<length out.
                  transformerStep P (cs ! i) ((t0 # out) ! i) = Inr (out ! i, cs ! Suc i))
            \<and> (if length out = maxTokens then c' = cs ! maxTokens
                 else transformerStep P (cs ! length out) ((t0 # out) ! length out)
                        = Inr (EOS, c'))"
    unfolding o by blast
next
  assume a: "wf_params P \<and> wf_cache c \<and> 0 \<le> t0 \<and> t0 < int vocab_size"
  then show "\<exists>tok c1. transformerStep P c t0 = Inr (tok, c1)"
    using transformerStep_range [of P c t0] by blast
next
  assume a: "wf_params P \<and> wf_cache c \<and> 0 \<le> t0 \<and> t0 < int vocab_size"
  show "(\<exists>out c'. generateBotResponse P c (t0 # rest) = Inr (out, c'))
            \<or> generateBotResponse P c (t0 # rest) = Inl TypeError"
  proof (cases "generateBotResponse P c (t0 # rest)")
    case (Inl e)
    then have "generate_loop P maxTokens c t0 [] = Inl e"
      by (simp add: generateBotResponse_def first_token_def)
    then have "e = TypeError" by (rule generate_loop_error)
    with Inl show ?thesis by simp
  next
    case (Inr r)
    then show ?thesis by (cases r) simp
  qed
qed


theorem generateBotResponse_loop_witness:
  "generateBotResponse demo_params empty_cache [5] = Inr ([0], demo_cache)
   \<and> (wf_params demo_params \<and> wf_cache empty_cache \<and> (0::int) \<le> 5 \<and> (5::int) < int vocab_size)
   \<and> length [0::int] \<le> maxTokens \<and> EOS \<notin> set [0]
   \<and> (\<exists>cs. length cs = 2 \<and> cs ! 0 = empty_cache
         \<and> transformerStep demo_params (cs ! 0) 5 = Inr (0, cs ! 1)
         \<and> transformerStep demo_params (cs ! 1) 0 = Inr (EOS, demo_cache))
   \<and> (\<exists>tok c1. transformerStep demo_params empty_cache 5 = Inr (tok, c1))"
proof -
  note th = generateBotResponse_loop [of demo_params empty_cache 5 "[]" "[0]" demo_cache]
  note g = generate_demo
  have h: "wf_params demo_params \<and> wf_cache empty_cache \<and> (0::int) \<le> 5 \<and> (5::int) < int vocab_size"
    using wf_demo_params wf_empty_cache valid_token_5 by simp
  from th [THEN conjunct1] g
  have r: "length [0::int] \<le> maxTokens \<and> EOS \<notin> set [0]
      \<and> (\<exists>cs. length cs = length [0::int] + 1 \<and> cs ! 0 = empty_cache
            \<and> (\<forall>i<length [0::int].
                  transformerStep demo_params (cs ! i) ((5 # [0]) ! i) = Inr ([0] ! i, cs ! Suc i))
            \<and> (if length [0::int] = maxTokens then demo_cache = cs ! maxTokens
                 else transformerStep demo_params (cs ! length [0::int]) ((5 # [0]) ! length [0::int])
                        = Inr (EOS, demo_cache)))"
    by (rule mp)
  then obtain cs where cs: "length cs = length [0::int] + 1" "cs ! 0 = empty_cache"
      "\<forall>i<length [0::int].
          transformerStep demo_params (cs ! i) ((5 # [0]) ! i) = Inr ([0] ! i, cs ! Suc i)"
      "if length [0::int] = maxTokens then demo_cache = cs ! maxTokens
       else transformerStep demo_params (cs ! length [0::int]) ((5 # [0]) ! length [0::int])
              = Inr (EOS, demo_cache)"
    by blast
  from cs(3) have "transformerStep demo_params (cs ! 0) 5 = Inr (0, cs ! 1)" by simp
  moreover from cs(4) have "transformerStep demo_params (cs ! 1) 0 = Inr (EOS, demo_cache)"
    by (simp add: maxTokens_def)
  ultimately have t: "\<exists>cs. length cs = 2 \<and> cs ! 0 = empty_cache
         \<and> transformerStep demo_params (cs ! 0) 5 = Inr (0, cs ! 1)
         \<and> transformerStep demo_params (cs ! 1) 0 = Inr (EOS, demo_cache)"
    using cs(1,2) by (intro exI [where x = cs]) simp
  from th [THEN conjunct2] h
  have "(\<exists>tok c1. transformerStep demo_params empty_cache 5 = Inr (tok, c1))
        \<and> ((\<exists>out c'. generateBotResponse demo_params empty_cache [5] = Inr (out, c'))
            \<or> generateBotResponse demo_params empty_cache [5] = Inl TypeError)"
    by (rule mp)
  then have f: "\<exists>tok c1. transformerStep demo_params empty_cache 5 = Inr (tok, c1)"
    by (rule conjunct1)
  show ?thesis
    by (rule conjI [OF g conjI [OF h conjI [OF conjunct1 [OF r]
          conjI [OF conjunct1 [OF conjunct2 [OF r]] conjI [OF t f]]]]])
qed

text \<open>
  Claim C3. Along any number \<open>n\<close> of decoder steps, every layer's entry only grows at
  its end: its keys are the old keys followed by \<open>n\<close> new ones and its values the old
  values followed by \<open>n\<close> new ones, one pair for each step, with nothing removed or
  reordered; so an entry that held as many keys as values still does.
\<close>

theorem cache_append_only:
  assumes "reachable P c n c'" and "l < n_layers"
  shows "(\<exists>ks vs. length ks = n \<and> length vs = n
            \<and> kv_keys (cache_entry c' l) = kv_keys (cache_entry c l) @ ks
            \<and> kv_values (cache_entry c' l) = kv_values (cache_entry c l) @ vs)
       \<and> (length (kv_keys (cache_entry c l)) = length (kv_values (cache_entry c l)) \<longrightarrow>
            length (kv_keys (cache_entry c' l)) = length (kv_values (cache_entry c' l)))"
  using reachable_appends [OF assms] by auto

theorem cache_append_only_witness:
  "reachable demo_params empty_cache 2 demo_cache \<and> 0 < n_layers
   \<and> (\<exists>ks vs. length ks = 2 \<and> length vs = 2
         \<and> kv_keys (cache_entry demo_cache 0) = kv_keys (cache_entry empty_cache 0) @ ks
         \<and> kv_values (cache_entry demo_cache 0) = kv_values (cache_entry empty_cache 0) @ vs)
   \<and> length (kv_keys (cache_entry empty_cache 0)) = length (kv_values (cache_entry empty_cache 0))
   \<and> length (kv_keys (cache_entry demo_cache 0)) = length (kv_values (cache_entry demo_cache 0))"
proof -
  have a: "transformerStep demo_params empty_cache 5 = Inr (0, one_step_cache)"
    by (rule step_demo_first) (simp_all add: vocab_size_def)
  have r: "reachable demo_params empty_cache 2 demo_cache"
    using reachable.step [OF reachable.step [OF reachable.start a] step_demo_second]
    by (simp add: numeral_2_eq_2)
  have l: "0 < n_layers" by (simp add: n_layers_def)
  note th = cache_append_only [OF r l]
  have h: "length (kv_keys (cache_entry empty_cache 0)) = length (kv_values (cache_entry empty_cache 0))"
    by (simp add: empty_entry_def)
  from th [THEN conjunct2] h
  have g: "length (kv_keys (cache_entry demo_cache 0)) = length (kv_values (cache_entry demo_cache 0))"
    by (rule mp)
  show ?thesis
    by (rule conjI [OF r conjI [OF l conjI [OF conjunct1 [OF th] conjI [OF h g]]]])
qed

lemma layer_general:
  assumes P: "wf_params P" and l: "l < n_layers" and x: "length x = d_model"
  shows "\<exists>x'. layer P l kv (Some x)
           = Inr (x', \<lparr>kv_keys = kv_keys kv @ [row_product x (Wk P ! l)],
                      kv_values = kv_values kv @ [row_product x (Wv P ! l)]\<rparr>)
       \<and> length x' = d_model"
proof -
  note m = wf_params_layer [OF P l]
  define kv' where "kv' = \<lparr>kv_keys = kv_keys kv @ [row_product x (Wk P ! l)],
                      kv_values = kv_values kv @ [row_product x (Wv P ! l)]\<rparr>"
  define attn where "attn = attend (kv_values kv')
      (softmax (map (score (row_product x (Wq P ! l))) (kv_keys kv')))"
  have a: "length attn = d_model"
    by (simp add: attn_def attend_def attend_loop)
  note q = row_times_d_model [OF m(1) x] and k = row_times_d_model [OF m(2) x]
    and v = row_times_d_model [OF m(3) x] and o = row_times_d_model [OF m(4) a]
  have "layer P l kv (Some x) = Inr (row_product attn (Wo P ! l), kv')"
    unfolding layer_def m(5-8) q(1) k(1) v(1) sum.case Let_def kv'_def [symmetric]
      attn_def [symmetric] o(1) ..
  with o(2) show ?thesis unfolding kv'_def by blast
qed

text \<open>
  Claim C4, as amended. The decoder step has no guard on a malformed cache entry. On
  well-formed weights and a valid input token it raises no error and truncates
  nothing: every layer, on its input \<open>x\<close> (the embedding row for the first layer, the
  output of the layer before for the others), appends to its entry, as it finds it,
  the key and the value that are the products of \<open>x\<close> with its key and value matrices,
  so an entry that held different numbers of keys and values still does; the attention
  is computed over the mismatched lengths; and the step returns the position of the
  maximum of the logits, or -1 when the logits are \<open>NaN\<close>.
\<close>

theorem malformed_cache_not_guarded:
  assumes "wf_params P" and "0 \<le> t" and "t < int vocab_size" and "l < n_layers"
    and "length (kv_keys (cache_entry c l)) \<noteq> length (kv_values (cache_entry c l))"
  shows "\<exists>xs c'. length xs = Suc n_layers \<and> xs ! 0 = W_embed P ! nat t
       \<and> (\<forall>m<n_layers. length (xs ! m) = d_model
            \<and> layer P m (cache_entry c m) (Some (xs ! m)) = Inr (xs ! Suc m, cache_entry c' m)
            \<and> cache_entry c' m
                = \<lparr>kv_keys = kv_keys (cache_entry c m) @ [row_product (xs ! m) (Wk P ! m)],
                   kv_values = kv_values (cache_entry c m) @ [row_product (xs ! m) (Wv P ! m)]\<rparr>)
       \<and> transformerStep P c t = Inr (argmax_index (row_product (xs ! n_layers) (W_out P)), c')
       \<and> - 1 \<le> argmax_index (row_product (xs ! n_layers) (W_out P))
       \<and> argmax_index (row_product (xs ! n_layers) (W_out P)) < int vocab_size
       \<and> length (kv_keys (cache_entry c' l)) \<noteq> length (kv_values (cache_entry c' l))"
proof -
  note P = assms(1)
  have tn: "nat t < vocab_size" using assms(2,3) by simp
  have E: "is_matrix vocab_size d_model (W_embed P)" and O: "is_matrix d_model vocab_size (W_out P)"
    using P by (simp_all add: wf_params_def)
  define x0 where "x0 = W_embed P ! nat t"
  have x0: "length x0 = d_model"
    using is_matrix_rows [OF E] tn by (simp add: x0_def)
  have emb: "embedding_row (W_embed P) t = Some x0"
    using is_matrix_rows(1) [OF E] tn assms(2) by (simp add: embedding_row_def x0_def)
  define e0 where "e0 = \<lparr>kv_keys = kv_keys (cache_entry c 0) @ [row_product x0 (Wk P ! 0)],
      kv_values = kv_values (cache_entry c 0) @ [row_product x0 (Wv P ! 0)]\<rparr>"
  have l0: "(0::nat) < n_layers" and l1: "(1::nat) < n_layers" by (simp_all add: n_layers_def)
  from layer_general [OF P l0 x0, of "cache_entry c 0"] obtain x1 where
    s0: "layer P 0 (cache_entry c 0) (Some x0) = Inr (x1, e0)" and x1: "length x1 = d_model"
    unfolding e0_def by blast
  define e1 where "e1 = \<lparr>kv_keys = kv_keys (cache_entry c 1) @ [row_product x1 (Wk P ! 1)],
      kv_values = kv_values (cache_entry c 1) @ [row_product x1 (Wv P ! 1)]\<rparr>"
  from layer_general [OF P l1 x1, of "cache_entry c 1"] obtain x2 where
    s1: "layer P 1 (cache_entry c 1) (Some x1) = Inr (x2, e1)" and x2: "length x2 = d_model"
    unfolding e1_def by blast
  define c' where "c' = c(0 \<mapsto> e0, 1 \<mapsto> e1)"
  define xs where "xs = [x0, x1, x2]"
  have L: "layers P n_layers 0 c (Some x0) = Inr (Some x2, c')"
    unfolding c'_def by (rule two_layers [OF s0 s1])
  note o = row_times_d_model [OF O x2]
  have step: "transformerStep P c t = Inr (argmax_index (row_product x2 (W_out P)), c')"
    by (simp add: transformerStep_def emb L o(1))
  have ce: "cache_entry c' 0 = e0" "cache_entry c' 1 = e1"
    by (simp_all add: c'_def)
  have all: "length (xs ! m) = d_model
            \<and> layer P m (cache_entry c m) (Some (xs ! m)) = Inr (xs ! Suc m, cache_entry c' m)
            \<and> cache_entry c' m
                = \<lparr>kv_keys = kv_keys (cache_entry c m) @ [row_product (xs ! m) (Wk P ! m)],
                   kv_values = kv_values (cache_entry c m) @ [row_product (xs ! m) (Wv P ! m)]\<rparr>"
    if "m < n_layers" for m
  proof -
    from that have "m = 0 \<or> m = 1" by (auto simp: n_layers_def)
    then show ?thesis
    proof
      assume "m = 0"
      then show ?thesis using x0 s0 ce(1) by (simp add: xs_def e0_def)
    next
      assume "m = 1"
      then show ?thesis using x1 s1 ce(2) by (simp add: xs_def e1_def)
    qed
  qed
  have xn: "xs ! n_layers = x2" by (simp add: xs_def n_layers_def)
  have rg: "- 1 \<le> argmax_index (row_product x2 (W_out P))
      \<and> argmax_index (row_product x2 (W_out P)) < int vocab_size"
    using argmax_index_range [of "row_product x2 (W_out P)"] o(2) by simp
  from all [OF assms(4)] assms(5)
  have ne: "length (kv_keys (cache_entry c' l)) \<noteq> length (kv_values (cache_entry c' l))"
    by simp
  have "length xs = Suc n_layers \<and> xs ! 0 = W_embed P ! nat t"
    by (simp add: xs_def n_layers_def x0_def)
  with all step rg ne show ?thesis
    unfolding xn [symmetric] by blast
qed

lemma malformed_cache_lengths:
  "length (kv_keys (cache_entry malformed_cache 0)) = 0
   \<and> length (kv_values (cache_entry malformed_cache 0)) = 1"
  by (simp add: malformed_cache_def)

theorem malformed_cache_not_guarded_witness:
  "wf_params zero_params \<and> (0::int) \<le> 0 \<and> (0::int) < int vocab_size \<and> 0 < n_layers
   \<and> length (kv_keys (cache_entry malformed_cache 0)) \<noteq> length (kv_values (cache_entry malformed_cache 0))
   \<and> (\<exists>xs. length xs = Suc n_layers \<and> xs ! 0 = W_embed zero_params ! nat 0
       \<and> argmax_index (row_product (xs ! n_layers) (W_out zero_params)) = - 1
       \<and> cache_entry malformed_after 0
           = \<lparr>kv_keys = kv_keys (cache_entry malformed_cache 0)
                          @ [row_product (xs ! 0) (Wk zero_params ! 0)],
              kv_values = kv_values (cache_entry malformed_cache 0)
                          @ [row_product (xs ! 0) (Wv zero_params ! 0)]\<rparr>)
   \<and> length (kv_keys (cache_entry malformed_after 0)) \<noteq> length (kv_values (cache_entry malformed_after 0))"
proof -
  have h1: "(0::int) \<le> 0" and h2: "(0::int) < int vocab_size" and h3: "0 < n_layers"
    by (simp_all add: vocab_size_def n_layers_def)
  have h4: "length (kv_keys (cache_entry malformed_cache 0))
      \<noteq> length (kv_values (cache_entry malformed_cache 0))"
    using malformed_cache_lengths by simp
  have s: "transformerStep zero_params malformed_cache 0 = Inr (- 1, malformed_after)"
    by (rule step_malformed [OF h1 h2])
  from malformed_cache_not_guarded [OF wf_zero_params h1 h2 h3 h4]
  obtain xs c' where r: "length xs = Suc n_layers" "xs ! 0 = W_embed zero_params ! nat 0"
    "\<forall>m<n_layers. length (xs ! m) = d_model
        \<and> layer zero_params m (cache_entry malformed_cache m) (Some (xs ! m))
            = Inr (xs ! Suc m, cache_entry c' m)
        \<and> cache_entry c' m
            = \<lparr>kv_keys = kv_keys (cache_entry malformed_cache m)
                           @ [row_product (xs ! m) (Wk zero_params ! m)],
               kv_values = kv_values (cache_entry malformed_cache m)
                           @ [row_product (xs ! m) (Wv zero_params ! m)]\<rparr>"
    "transformerStep zero_params malformed_cache 0
       = Inr (argmax_index (row_product (xs ! n_layers) (W_out zero_params)), c')"
    "length (kv_keys (cache_entry c' 0)) \<noteq> length (kv_values (cache_entry c' 0))"
    by blast
  from r(4) s have eq: "argmax_index (row_product (xs ! n_layers) (W_out zero_params)) = - 1"
    "c' = malformed_after" by simp_all
  from r(3) h3 have "cache_entry c' 0
            = \<lparr>kv_keys = kv_keys (cache_entry malformed_cache 0)
                           @ [row_product (xs ! 0) (Wk zero_params ! 0)],
               kv_values = kv_values (cache_entry malformed_cache 0)
                           @ [row_product (xs ! 0) (Wv zero_params ! 0)]\<rparr>"
    by blast
  with r(1,2) eq have a: "\<exists>xs. length xs = Suc n_layers \<and> xs ! 0 = W_embed zero_params ! nat 0
       \<and> argmax_index (row_product (xs ! n_layers) (W_out zero_params)) = - 1
       \<and> cache_entry malformed_after 0
           = \<lparr>kv_keys = kv_keys (cache_entry malformed_cache 0)
                          @ [row_product (xs ! 0) (Wk zero_params ! 0)],
              kv_values = kv_values (cache_entry malformed_cache 0)
                          @ [row_product (xs ! 0) (Wv zero_params ! 0)]\<rparr>"
    by (intro exI [where x = xs]) simp
  from r(5) eq(2)
  have b: "length (kv_keys (cache_entry malformed_after 0))
      \<noteq> length (kv_values (cache_entry malformed_after 0))"
    by simp
  show ?thesis
    by (rule conjI [OF wf_zero_params conjI [OF h1 conjI [OF h2 conjI [OF h3 conjI [OF h4
          conjI [OF a b]]]]]])
qed

theorem malformed_cache_counterexample:
  "length (kv_keys (cache_entry malformed_cache 0)) = 0
   \<and> length (kv_values (cache_entry malformed_cache 0)) = 1
   \<and> transformerStep zero_params malformed_cache 0 = Inr (- 1, malformed_after)
   \<and> length (kv_keys (cache_entry malformed_after 0)) = 1
   \<and> length (kv_values (cache_entry malformed_after 0)) = 2"
proof -
  have "transformerStep zero_params malformed_cache 0 = Inr (- 1, malformed_after)"
    by (rule step_malformed) (simp_all add: vocab_size_def)
  then show ?thesis
    using malformed_cache_lengths by (simp add: malformed_after_def)
qed

end
